theory Spec2Isabelle
  imports Main "HOL-Library.Multiset"
begin

unbundle bit_operations_syntax

section \<open>Colors, points and errors\<close>

text \<open>
  The embedding follows \<^verbatim>\<open>src/python/go_board.py\<close>. Python's unbounded
  integers are \<^typ>\<open>int\<close>; a \<^verbatim>\<open>Point\<close> is an \<^typ>\<open>int\<close>. Every
  exception the source can raise is a value of \<open>error\<close>; a function that can raise
  returns \<open>error + 'a\<close> with \<open>Inl\<close> for the exception.
\<close>

datatype Color = BLACK | WHITE | EMPTY | GUARD

datatype error = AssertionError | IndexError | ValueError | ZeroDivisionError

fun opponent :: "Color \<Rightarrow> Color" where
  "opponent BLACK = WHITE"
| "opponent WHITE = BLACK"
| "opponent c = c"

definition VIRTUAL_BOARD_SIZE :: int where
  "VIRTUAL_BOARD_SIZE = 21"

definition VIRTUAL_BOARD_POINTS :: int where
  "VIRTUAL_BOARD_POINTS = VIRTUAL_BOARD_SIZE * VIRTUAL_BOARD_SIZE"

definition INVALID_POINT :: int where
  "INVALID_POINT = - 1"

definition PASS :: int where
  "PASS = 20 * VIRTUAL_BOARD_SIZE"

section \<open>Chain accounting\<close>

record Vertex =
  chain_head :: int
  chain_next :: int
  color :: Color

record Chain =
  num_stones :: int
  num_pseudo_liberties :: int
  liberty_vertex_sum :: int
  liberty_vertex_sum_squared :: int

text \<open>The dataclass defaults of \<^verbatim>\<open>Chain()\<close>: the border values.\<close>

definition border_chain :: Chain where
  "border_chain = \<lparr>num_stones = 0, num_pseudo_liberties = 4,
     liberty_vertex_sum = 32768, liberty_vertex_sum_squared = 2147483648\<rparr>"

definition in_atari :: "Chain \<Rightarrow> bool" where
  "in_atari ch \<longleftrightarrow>
     num_pseudo_liberties ch * liberty_vertex_sum_squared ch
       = liberty_vertex_sum ch * liberty_vertex_sum ch"

definition reset :: "Chain \<Rightarrow> Chain" where
  "reset ch = ch\<lparr>num_stones := 0, num_pseudo_liberties := 0,
     liberty_vertex_sum := 0, liberty_vertex_sum_squared := 0\<rparr>"

definition merge :: "Chain \<Rightarrow> Chain \<Rightarrow> Chain" where
  "merge ch other = ch\<lparr>num_stones := num_stones ch + num_stones other,
     num_pseudo_liberties := num_pseudo_liberties ch + num_pseudo_liberties other,
     liberty_vertex_sum := liberty_vertex_sum ch + liberty_vertex_sum other,
     liberty_vertex_sum_squared :=
       liberty_vertex_sum_squared ch + liberty_vertex_sum_squared other\<rparr>"

definition add_liberty :: "Chain \<Rightarrow> int \<Rightarrow> Chain" where
  "add_liberty ch p = ch\<lparr>num_pseudo_liberties := num_pseudo_liberties ch + 1,
     liberty_vertex_sum := liberty_vertex_sum ch + p,
     liberty_vertex_sum_squared := liberty_vertex_sum_squared ch + p * p\<rparr>"

definition remove_liberty :: "Chain \<Rightarrow> int \<Rightarrow> Chain" where
  "remove_liberty ch p = ch\<lparr>num_pseudo_liberties := num_pseudo_liberties ch - 1,
     liberty_vertex_sum := liberty_vertex_sum ch - p,
     liberty_vertex_sum_squared := liberty_vertex_sum_squared ch - p * p\<rparr>"

text \<open>
  \<^verbatim>\<open>single_liberty\<close> has two assertions; the second one divides, so a chain with
  no pseudo-liberty that passes the first one raises \<^verbatim>\<open>ZeroDivisionError\<close>
  there. With a positive divisor Python's \<^verbatim>\<open>%\<close> and \<^verbatim>\<open>//\<close> are
  \<open>mod\<close> and \<open>div\<close> on \<^typ>\<open>int\<close>; with a negative one they agree as well
  (both round towards minus infinity).
\<close>

definition single_liberty :: "Chain \<Rightarrow> error + int" where
  "single_liberty ch =
     (if \<not> in_atari ch then Inl AssertionError
      else if num_pseudo_liberties ch = 0 then Inl ZeroDivisionError
      else if liberty_vertex_sum ch mod num_pseudo_liberties ch \<noteq> 0 then Inl AssertionError
      else Inr (liberty_vertex_sum ch div num_pseudo_liberties ch))"

text \<open>
  The statistics a chain keeps for a multiset of liberty coordinates (each empty
  neighbour counted once per adjacent stone): how many, their sum, the sum of their
  squares.
\<close>

definition tracks :: "Chain \<Rightarrow> int multiset \<Rightarrow> bool" where
  "tracks ch M \<longleftrightarrow>
     num_pseudo_liberties ch = int (size M) \<and>
     liberty_vertex_sum ch = sum_mset M \<and>
     liberty_vertex_sum_squared ch = sum_mset (image_mset (\<lambda>x. x * x) M)"

section \<open>Coordinates\<close>

text \<open>
  A Python string is the list of its code points, so \<^verbatim>\<open>ord\<close> is the identity
  and strings compare by code point. \<^verbatim>\<open>"pass"\<close> is \<open>pass_str\<close>.
\<close>

type_synonym pystr = "nat list"

definition pass_str :: pystr where
  "pass_str = [112, 97, 115, 115]"

text \<open>
  \<^verbatim>\<open>parse_point\<close> calls two functions of the Python library, \<^verbatim>\<open>str.lower\<close>
  and \<^verbatim>\<open>int\<close>. They are parameters here: \<open>str_lower\<close> maps a string to a
  string, \<open>py_int\<close> returns a number or raises. \<open>97\<close> is \<^verbatim>\<open>ord('a')\<close> and
  \<open>105\<close> is \<^verbatim>\<open>'i'\<close>.
\<close>

definition parse_point ::
  "(pystr \<Rightarrow> pystr) \<Rightarrow> (pystr \<Rightarrow> error + int) \<Rightarrow> pystr \<Rightarrow> error + int" where
  "parse_point str_lower py_int s0 =
     (let s = str_lower s0 in
      if s = pass_str then Inr PASS
      else if length s < 2 \<or> length s > 3 then Inr INVALID_POINT
      else
        let col = int (hd s) - 97 + (if hd s \<le> 105 then 1 else 0)
        in case py_int (tl s) of
             Inl e \<Rightarrow> Inl e
           | Inr row \<Rightarrow> Inr (row * VIRTUAL_BOARD_SIZE + col))"

text \<open>
  The two library functions on strings of ASCII characters (code points below 128), to
  run \<open>parse_point\<close> on such strings. There \<^verbatim>\<open>str.lower\<close> adds 32 to the
  code points 65 to 90, and \<^verbatim>\<open>int\<close> drops surrounding whitespace (code points 9
  to 13 and 32), allows one sign, then wants decimal digits with single underscores
  between digits; anything else raises \<^verbatim>\<open>ValueError\<close>. Strings with other
  characters are outside what these two definitions describe.
\<close>

definition ascii_lower :: "pystr \<Rightarrow> pystr" where
  "ascii_lower s = map (\<lambda>c. if 65 \<le> c \<and> c \<le> 90 then c + 32 else c) s"

definition is_space :: "nat \<Rightarrow> bool" where
  "is_space c \<longleftrightarrow> c = 32 \<or> (9 \<le> c \<and> c \<le> 13)"

definition is_digit :: "nat \<Rightarrow> bool" where
  "is_digit c \<longleftrightarrow> 48 \<le> c \<and> c \<le> 57"

definition strip :: "pystr \<Rightarrow> pystr" where
  "strip s = rev (dropWhile is_space (rev (dropWhile is_space s)))"

fun digits_value :: "int \<Rightarrow> pystr \<Rightarrow> error + int" where
  "digits_value acc [] = Inr acc"
| "digits_value acc [c] = (if is_digit c then Inr (acc * 10 + (int c - 48)) else Inl ValueError)"
| "digits_value acc (c # d # r) =
     (if is_digit c then
        (if d = 95 then
           (case r of [] \<Rightarrow> Inl ValueError
            | e # r' \<Rightarrow> if is_digit e then digits_value (acc * 10 + (int c - 48)) r
                       else Inl ValueError)
         else digits_value (acc * 10 + (int c - 48)) (d # r))
      else Inl ValueError)"

definition unsigned_int :: "pystr \<Rightarrow> error + int" where
  "unsigned_int s = (if s = [] then Inl ValueError else digits_value 0 s)"

definition ascii_int :: "pystr \<Rightarrow> error + int" where
  "ascii_int s =
     (case strip s of
        [] \<Rightarrow> Inl ValueError
      | c # r \<Rightarrow>
          if c = 45 then (case unsigned_int r of Inl e \<Rightarrow> Inl e | Inr v \<Rightarrow> Inr (- v))
          else if c = 43 then unsigned_int r
          else unsigned_int (c # r))"

definition point_to_2d :: "int \<Rightarrow> int \<times> int" where
  "point_to_2d p =
     (if p = INVALID_POINT \<or> p = PASS then (- 1, - 1)
      else (p div VIRTUAL_BOARD_SIZE - 1, p mod VIRTUAL_BOARD_SIZE - 1))"

definition point_from_2d :: "int \<Rightarrow> int \<Rightarrow> int" where
  "point_from_2d row col = (row + 1) * VIRTUAL_BOARD_SIZE + col + 1"

definition board_points :: "int \<Rightarrow> int list" where
  "board_points board_size =
     concat (map (\<lambda>row. map (\<lambda>col. point_from_2d row col) [0..board_size - 1])
                 [0..board_size - 1])"

definition neighbours :: "int \<Rightarrow> int list" where
  "neighbours p = [p + VIRTUAL_BOARD_SIZE, p - 1, p + 1, p - VIRTUAL_BOARD_SIZE]"

text \<open>
  What the specification calls a well-formed coordinate: a column letter from A to T
  without I, in either case, followed by a row number from 1 to 19 in decimal digits.
\<close>

definition well_formed_coordinate :: "pystr \<Rightarrow> bool" where
  "well_formed_coordinate s \<longleftrightarrow>
     (length s = 2 \<or> length s = 3) \<and>
     ((97 \<le> hd s \<and> hd s \<le> 116 \<and> hd s \<noteq> 105) \<or> (65 \<le> hd s \<and> hd s \<le> 84 \<and> hd s \<noteq> 73)) \<and>
     list_all is_digit (tl s) \<and>
     (case digits_value 0 (tl s) of Inl e \<Rightarrow> False | Inr row \<Rightarrow> 1 \<le> row \<and> row \<le> 19)"

section \<open>The board\<close>

text \<open>
  \<^verbatim>\<open>_board\<close> and \<^verbatim>\<open>_chains\<close> are Python lists of
  \<^verbatim>\<open>VIRTUAL_BOARD_POINTS\<close> objects whose length never changes; they are modelled
  as functions from the slot number, and \<open>slot\<close> is Python's index rule for such a
  list: a negative index counts from the end, and an index outside the list raises
  \<^verbatim>\<open>IndexError\<close>. The table \<^verbatim>\<open>_ZOBRIST_VALUES\<close> is filled with random
  numbers when the module is loaded; it is the parameter \<open>Z\<close> of every function that
  reads it.
\<close>

type_synonym zobrist = "int \<Rightarrow> Color \<Rightarrow> int"

record GoBoard =
  board_size :: int
  last_ko_point :: int
  board :: "int \<Rightarrow> Vertex"
  chains :: "int \<Rightarrow> Chain"
  last_captures :: "int list"
  zobrist_hash :: int

definition bindE :: "error + 'a \<Rightarrow> ('a \<Rightarrow> error + 'b) \<Rightarrow> error + 'b" where
  "bindE m f = (case m of Inl e \<Rightarrow> Inl e | Inr x \<Rightarrow> f x)"

definition slot :: "int \<Rightarrow> error + int" where
  "slot i =
     (if 0 \<le> i \<and> i < VIRTUAL_BOARD_POINTS then Inr i
      else if - VIRTUAL_BOARD_POINTS \<le> i \<and> i < 0 then Inr (i + VIRTUAL_BOARD_POINTS)
      else Inl IndexError)"

definition update_vertex :: "GoBoard \<Rightarrow> int \<Rightarrow> (Vertex \<Rightarrow> Vertex) \<Rightarrow> GoBoard" where
  "update_vertex b i f = b\<lparr>board := (board b)(i := f (board b i))\<rparr>"

definition update_chain :: "GoBoard \<Rightarrow> int \<Rightarrow> (Chain \<Rightarrow> Chain) \<Rightarrow> GoBoard" where
  "update_chain b j f = b\<lparr>chains := (chains b)(j := f (chains b j))\<rparr>"

definition point_color :: "GoBoard \<Rightarrow> int \<Rightarrow> error + Color" where
  "point_color b p = bindE (slot p) (\<lambda>i. Inr (color (board b i)))"

definition is_empty :: "GoBoard \<Rightarrow> int \<Rightarrow> error + bool" where
  "is_empty b p = bindE (slot p) (\<lambda>i. Inr (color (board b i) = EMPTY))"

definition in_board_area :: "GoBoard \<Rightarrow> int \<Rightarrow> bool" where
  "in_board_area b p =
     (case point_to_2d p of
        (row, col) \<Rightarrow> row \<ge> 0 \<and> row < board_size b \<and> col \<ge> 0 \<and> col < board_size b)"

text \<open>\<open>chain_head_of\<close> is the method \<^verbatim>\<open>GoBoard.chain_head\<close>.\<close>

definition chain_head_of :: "GoBoard \<Rightarrow> int \<Rightarrow> error + int" where
  "chain_head_of b p = bindE (slot p) (\<lambda>i. Inr (chain_head (board b i)))"

text \<open>
  \<^verbatim>\<open>_chain(p)\<close> returns the object \<^verbatim>\<open>_chains[chain_head(p)]\<close>, which
  its callers read or mutate: \<open>chain_slot\<close> is the slot of that object and
  \<open>chain_of\<close> its value.
\<close>

definition chain_slot :: "GoBoard \<Rightarrow> int \<Rightarrow> error + int" where
  "chain_slot b p = bindE (chain_head_of b p) slot"

definition chain_of :: "GoBoard \<Rightarrow> int \<Rightarrow> error + Chain" where
  "chain_of b p = bindE (chain_slot b p) (\<lambda>j. Inr (chains b j))"

definition chain_size :: "GoBoard \<Rightarrow> int \<Rightarrow> error + int" where
  "chain_size b p = bindE (chain_of b p) (\<lambda>ch. Inr (num_stones ch))"

definition pseudo_liberty :: "GoBoard \<Rightarrow> int \<Rightarrow> error + int" where
  "pseudo_liberty b p =
     bindE (chain_of b p) (\<lambda>ch.
       if num_pseudo_liberties ch = 0 then Inr 0
       else if in_atari ch then Inr 1
       else Inr (num_pseudo_liberties ch))"

definition board_in_atari :: "GoBoard \<Rightarrow> int \<Rightarrow> error + bool" where
  "board_in_atari b p = bindE (chain_of b p) (\<lambda>ch. Inr (in_atari ch))"

subsection \<open>Construction\<close>

definition guard_board :: "int \<Rightarrow> GoBoard" where
  "guard_board sz =
     \<lparr>board_size = sz, last_ko_point = INVALID_POINT,
      board = (\<lambda>i. \<lparr>chain_head = i, chain_next = i, color = GUARD\<rparr>),
      chains = (\<lambda>i. border_chain),
      last_captures = replicate 4 INVALID_POINT,
      zobrist_hash = 0\<rparr>"

fun init_colors :: "GoBoard \<Rightarrow> int list \<Rightarrow> error + GoBoard" where
  "init_colors b [] = Inr b"
| "init_colors b (p # ps) =
     bindE (slot p) (\<lambda>i.
       init_colors (update_chain (update_vertex b i (\<lambda>v. v\<lparr>color := EMPTY\<rparr>)) i reset) ps)"

fun seed_liberties :: "GoBoard \<Rightarrow> int \<Rightarrow> int list \<Rightarrow> error + GoBoard" where
  "seed_liberties b p [] = Inr b"
| "seed_liberties b p (n # ns) =
     bindE (is_empty b n) (\<lambda>e.
       if e then bindE (slot p) (\<lambda>i.
                   seed_liberties (update_chain b i (\<lambda>ch. add_liberty ch n)) p ns)
       else seed_liberties b p ns)"

fun init_liberties :: "GoBoard \<Rightarrow> int list \<Rightarrow> error + GoBoard" where
  "init_liberties b [] = Inr b"
| "init_liberties b (p # ps) =
     bindE (seed_liberties b p (neighbours p)) (\<lambda>b'. init_liberties b' ps)"

text \<open>\<open>GoBoard_init\<close> is \<^verbatim>\<open>GoBoard.__init__\<close>.\<close>

definition GoBoard_init :: "int \<Rightarrow> error + GoBoard" where
  "GoBoard_init sz =
     bindE (init_colors (guard_board sz) (board_points sz)) (\<lambda>b.
       init_liberties b (board_points sz))"

subsection \<open>Legality\<close>

fun connects_to_living :: "GoBoard \<Rightarrow> Color \<Rightarrow> int list \<Rightarrow> error + bool" where
  "connects_to_living b c [] = Inr False"
| "connects_to_living b c (n # ns) =
     bindE (point_color b n) (\<lambda>nc.
       if nc = c then
         bindE (chain_of b n) (\<lambda>ch.
           if \<not> in_atari ch then Inr True else connects_to_living b c ns)
       else connects_to_living b c ns)"

fun captures_some :: "GoBoard \<Rightarrow> Color \<Rightarrow> int list \<Rightarrow> error + bool" where
  "captures_some b c [] = Inr False"
| "captures_some b c (n # ns) =
     bindE (point_color b n) (\<lambda>nc.
       if nc = opponent c then
         bindE (chain_of b n) (\<lambda>ch.
           if in_atari ch then Inr True else captures_some b c ns)
       else captures_some b c ns)"

definition is_legal_move :: "GoBoard \<Rightarrow> int \<Rightarrow> Color \<Rightarrow> error + bool" where
  "is_legal_move b p c =
     (if p = PASS then Inr True
      else if \<not> in_board_area b p then Inr False
      else bindE (is_empty b p) (\<lambda>e.
        if \<not> e \<or> p = last_ko_point b then Inr False
        else bindE (chain_of b p) (\<lambda>ch.
          if num_pseudo_liberties ch > 0 then Inr True
          else bindE (connects_to_living b c (neighbours p)) (\<lambda>r.
            if r then Inr True else captures_some b c (neighbours p)))))"

subsection \<open>Playing a stone\<close>

text \<open>
  The two \<^verbatim>\<open>while True\<close> loops walk a \<^verbatim>\<open>chain_next\<close> list until it
  comes back to its start, which an arbitrary array need not do: they are partial
  functions, \<open>None\<close> is a loop that never ends, and so is every function that calls
  them.
\<close>

fun enemy_eye :: "GoBoard \<Rightarrow> Color \<Rightarrow> int list \<Rightarrow> error + bool" where
  "enemy_eye b c [] = Inr True"
| "enemy_eye b c (n # ns) =
     bindE (point_color b n) (\<lambda>nc.
       if nc = c \<or> nc = EMPTY then Inr False else enemy_eye b c ns)"

definition set_stone :: "zobrist \<Rightarrow> GoBoard \<Rightarrow> int \<Rightarrow> Color \<Rightarrow> error + GoBoard" where
  "set_stone Z b p c =
     bindE (slot p) (\<lambda>i.
       let z = (if c = EMPTY then Z i (color (board b i)) else Z i c)
       in Inr (update_vertex (b\<lparr>zobrist_hash := zobrist_hash b XOR z\<rparr>) i
                 (\<lambda>v. v\<lparr>color := c\<rparr>)))"

fun add_empty_liberties :: "GoBoard \<Rightarrow> int \<Rightarrow> int list \<Rightarrow> error + GoBoard" where
  "add_empty_liberties b j [] = Inr b"
| "add_empty_liberties b j (n # ns) =
     bindE (is_empty b n) (\<lambda>e.
       add_empty_liberties (if e then update_chain b j (\<lambda>ch. add_liberty ch n) else b) j ns)"

definition init_new_chain :: "GoBoard \<Rightarrow> int \<Rightarrow> error + GoBoard" where
  "init_new_chain b p =
     bindE (slot p) (\<lambda>i.
       let b1 = update_vertex b i (\<lambda>v. v\<lparr>chain_head := p, chain_next := p\<rparr>)
       in bindE (chain_slot b1 p) (\<lambda>j.
            let b2 = update_chain b1 j
                       (\<lambda>ch. (reset ch)\<lparr>num_stones := num_stones (reset ch) + 1\<rparr>)
            in add_empty_liberties b2 j (neighbours p)))"

fun largest_chain :: "GoBoard \<Rightarrow> Color \<Rightarrow> int list \<Rightarrow> int \<times> int \<Rightarrow> error + (int \<times> int)" where
  "largest_chain b c [] acc = Inr acc"
| "largest_chain b c (n # ns) (largest_chain_head, largest_chain_size) =
     bindE (point_color b n) (\<lambda>nc.
       if nc = c then
         bindE (chain_of b n) (\<lambda>ch.
           if num_stones ch > largest_chain_size then
             bindE (chain_head_of b n) (\<lambda>h. largest_chain b c ns (h, num_stones ch))
           else largest_chain b c ns (largest_chain_head, largest_chain_size))
       else largest_chain b c ns (largest_chain_head, largest_chain_size))"

partial_function (option) relabel :: "GoBoard \<Rightarrow> int \<Rightarrow> int \<Rightarrow> int \<Rightarrow> (error + GoBoard) option" where
  "relabel b n largest_chain_head cur =
     (case slot cur of
        Inl e \<Rightarrow> Some (Inl e)
      | Inr i \<Rightarrow>
          let b' = update_vertex b i (\<lambda>v. v\<lparr>chain_head := largest_chain_head\<rparr>);
              cur' = chain_next (board b' i)
          in if cur' = n then Some (Inr b') else relabel b' n largest_chain_head cur')"

declare relabel.simps [code]

definition splice :: "GoBoard \<Rightarrow> int \<Rightarrow> int \<Rightarrow> error + GoBoard" where
  "splice b largest_chain_head n =
     bindE (slot n) (\<lambda>i_n. bindE (slot largest_chain_head) (\<lambda>i_l.
       let x = chain_next (board b i_n); y = chain_next (board b i_l);
           b1 = update_vertex b i_l (\<lambda>v. v\<lparr>chain_next := x\<rparr>)
       in Inr (update_vertex b1 i_n (\<lambda>v. v\<lparr>chain_next := y\<rparr>))))"

definition join_one :: "GoBoard \<Rightarrow> int \<Rightarrow> int \<Rightarrow> (error + GoBoard) option" where
  "join_one b largest_chain_head n =
     (case chain_head_of b n of
        Inl e \<Rightarrow> Some (Inl e)
      | Inr h \<Rightarrow>
          if h \<noteq> largest_chain_head then
            (case bindE (chain_slot b largest_chain_head) (\<lambda>j1.
                    bindE (chain_slot b n) (\<lambda>j2.
                      Inr (update_chain b j1 (\<lambda>ch. merge ch (chains b j2))))) of
               Inl e \<Rightarrow> Some (Inl e)
             | Inr b1 \<Rightarrow>
                 (case relabel b1 n largest_chain_head n of
                    None \<Rightarrow> None
                  | Some (Inl e) \<Rightarrow> Some (Inl e)
                  | Some (Inr b2) \<Rightarrow> Some (splice b2 largest_chain_head n)))
          else Some (Inr b))"

fun join_neighbours :: "GoBoard \<Rightarrow> Color \<Rightarrow> int \<Rightarrow> int list \<Rightarrow> (error + GoBoard) option" where
  "join_neighbours b c largest_chain_head [] = Some (Inr b)"
| "join_neighbours b c largest_chain_head (n # ns) =
     (case point_color b n of
        Inl e \<Rightarrow> Some (Inl e)
      | Inr nc \<Rightarrow>
          if nc = c then
            (case join_one b largest_chain_head n of
               None \<Rightarrow> None
             | Some (Inl e) \<Rightarrow> Some (Inl e)
             | Some (Inr b') \<Rightarrow> join_neighbours b' c largest_chain_head ns)
          else join_neighbours b c largest_chain_head ns)"

fun join_add_liberties :: "GoBoard \<Rightarrow> int \<Rightarrow> int list \<Rightarrow> error + GoBoard" where
  "join_add_liberties b largest_chain_head [] = Inr b"
| "join_add_liberties b largest_chain_head (n # ns) =
     bindE (is_empty b n) (\<lambda>e.
       if e then
         bindE (chain_slot b largest_chain_head) (\<lambda>j.
           join_add_liberties (update_chain b j (\<lambda>ch. add_liberty ch n)) largest_chain_head ns)
       else join_add_liberties b largest_chain_head ns)"

definition insert_stone :: "GoBoard \<Rightarrow> int \<Rightarrow> int \<Rightarrow> error + GoBoard" where
  "insert_stone b p largest_chain_head =
     bindE (slot largest_chain_head) (\<lambda>i_l. bindE (slot p) (\<lambda>i_p.
       let b1 = update_vertex b i_p (\<lambda>v. v\<lparr>chain_next := chain_next (board b i_l)\<rparr>);
           b2 = update_vertex b1 i_l (\<lambda>v. v\<lparr>chain_next := p\<rparr>);
           b3 = update_vertex b2 i_p (\<lambda>v. v\<lparr>chain_head := largest_chain_head\<rparr>)
       in bindE (chain_slot b3 largest_chain_head) (\<lambda>j.
            join_add_liberties
              (update_chain b3 j (\<lambda>ch. ch\<lparr>num_stones := num_stones ch + 1\<rparr>))
              largest_chain_head (neighbours p))))"

definition join_chains_around :: "GoBoard \<Rightarrow> int \<Rightarrow> Color \<Rightarrow> (error + GoBoard) option" where
  "join_chains_around b p c =
     (case largest_chain b c (neighbours p) (INVALID_POINT, 0) of
        Inl e \<Rightarrow> Some (Inl e)
      | Inr (largest_chain_head, largest_chain_size) \<Rightarrow>
          if largest_chain_size = 0 then Some (init_new_chain b p)
          else
            (case join_neighbours b c largest_chain_head (neighbours p) of
               None \<Rightarrow> None
             | Some (Inl e) \<Rightarrow> Some (Inl e)
             | Some (Inr b1) \<Rightarrow> Some (insert_stone b1 p largest_chain_head)))"

fun remove_liberties :: "GoBoard \<Rightarrow> int \<Rightarrow> int list \<Rightarrow> error + GoBoard" where
  "remove_liberties b p [] = Inr b"
| "remove_liberties b p (n # ns) =
     bindE (chain_slot b n) (\<lambda>j.
       remove_liberties (update_chain b j (\<lambda>ch. remove_liberty ch p)) p ns)"

definition remove_liberty_from_neighbouring_chains :: "GoBoard \<Rightarrow> int \<Rightarrow> error + GoBoard" where
  "remove_liberty_from_neighbouring_chains b p = remove_liberties b p (neighbours p)"

fun restore_liberties :: "GoBoard \<Rightarrow> int \<Rightarrow> int \<Rightarrow> int list \<Rightarrow> error + GoBoard" where
  "restore_liberties b this_chain_head cur [] = Inr b"
| "restore_liberties b this_chain_head cur (n # ns) =
     bindE (chain_head_of b n) (\<lambda>h.
       bindE (if h \<noteq> this_chain_head then Inr True else is_empty b n) (\<lambda>g.
         if g then
           bindE (chain_slot b n) (\<lambda>j.
             restore_liberties (update_chain b j (\<lambda>ch. add_liberty ch cur))
               this_chain_head cur ns)
         else restore_liberties b this_chain_head cur ns))"

definition remove_stone :: "zobrist \<Rightarrow> GoBoard \<Rightarrow> int \<Rightarrow> int \<Rightarrow> error + GoBoard" where
  "remove_stone Z b this_chain_head cur =
     bindE (set_stone Z b cur EMPTY) (\<lambda>b1.
       bindE (init_new_chain b1 cur) (\<lambda>b2.
         restore_liberties b2 this_chain_head cur (neighbours cur)))"

partial_function (option) remove_chain_loop ::
  "zobrist \<Rightarrow> GoBoard \<Rightarrow> int \<Rightarrow> int \<Rightarrow> int \<Rightarrow> (error + GoBoard) option" where
  "remove_chain_loop Z b p this_chain_head cur =
     (case slot cur of
        Inl e \<Rightarrow> Some (Inl e)
      | Inr i \<Rightarrow>
          let next_p = chain_next (board b i)
          in (case remove_stone Z b this_chain_head cur of
                Inl e \<Rightarrow> Some (Inl e)
              | Inr b' \<Rightarrow>
                  if next_p = p then Some (Inr b')
                  else remove_chain_loop Z b' p this_chain_head next_p))"

declare remove_chain_loop.simps [code]

definition remove_chain :: "zobrist \<Rightarrow> GoBoard \<Rightarrow> int \<Rightarrow> (error + GoBoard) option" where
  "remove_chain Z b p =
     (case chain_head_of b p of
        Inl e \<Rightarrow> Some (Inl e)
      | Inr this_chain_head \<Rightarrow> remove_chain_loop Z b p this_chain_head p)"

fun capture_loop ::
  "zobrist \<Rightarrow> GoBoard \<Rightarrow> Color \<Rightarrow> int list \<Rightarrow> nat \<times> int \<Rightarrow> (error + GoBoard \<times> nat \<times> int) option" where
  "capture_loop Z b c [] acc = Some (Inr (b, acc))"
| "capture_loop Z b c (n # ns) (capture_index, stones_captured) =
     (case point_color b n of
        Inl e \<Rightarrow> Some (Inl e)
      | Inr nc \<Rightarrow>
          if nc \<noteq> opponent c then capture_loop Z b c ns (capture_index, stones_captured)
          else
            (case chain_of b n of
               Inl e \<Rightarrow> Some (Inl e)
             | Inr ch \<Rightarrow>
                 if num_pseudo_liberties ch \<noteq> 0
                 then capture_loop Z b c ns (capture_index, stones_captured)
                 else
                   (case chain_head_of b n of
                      Inl e \<Rightarrow> Some (Inl e)
                    | Inr h \<Rightarrow>
                        if length (last_captures b) \<le> capture_index then Some (Inl IndexError)
                        else
                          let b1 = b\<lparr>last_captures := (last_captures b)[capture_index := h]\<rparr>
                          in (case remove_chain Z b1 n of
                                None \<Rightarrow> None
                              | Some (Inl e) \<Rightarrow> Some (Inl e)
                              | Some (Inr b2) \<Rightarrow>
                                  capture_loop Z b2 c ns
                                    (Suc capture_index, stones_captured + num_stones ch)))))"

definition capture_dead_chains ::
  "zobrist \<Rightarrow> GoBoard \<Rightarrow> int \<Rightarrow> Color \<Rightarrow> (error + GoBoard \<times> int) option" where
  "capture_dead_chains Z b p c =
     (case capture_loop Z b c (neighbours p) (0, 0) of
        None \<Rightarrow> None
      | Some (Inl e) \<Rightarrow> Some (Inl e)
      | Some (Inr (b1, capture_index, stones_captured)) \<Rightarrow>
          Some (Inr (b1\<lparr>last_captures :=
                         fold (\<lambda>i xs. xs[i := INVALID_POINT])
                           [capture_index..<length (last_captures b1)] (last_captures b1)\<rparr>,
                     stones_captured)))"

definition finish_play :: "GoBoard \<Rightarrow> int \<Rightarrow> bool \<Rightarrow> int \<Rightarrow> error + GoBoard" where
  "finish_play b p played_in_enemy_eye stones_captured =
     bindE (if played_in_enemy_eye \<and> stones_captured = 1
            then (case last_captures b of [] \<Rightarrow> Inl IndexError
                  | x # xs \<Rightarrow> Inr (b\<lparr>last_ko_point := x\<rparr>))
            else Inr (b\<lparr>last_ko_point := INVALID_POINT\<rparr>)) (\<lambda>b'.
       bindE (chain_of b' p) (\<lambda>ch.
         if num_pseudo_liberties ch > 0 then Inr b' else Inl AssertionError))"

definition play :: "zobrist \<Rightarrow> GoBoard \<Rightarrow> int \<Rightarrow> Color \<Rightarrow> (error + GoBoard) option" where
  "play Z b p c =
     (if p = PASS then Some (Inr (b\<lparr>last_ko_point := INVALID_POINT\<rparr>))
      else
        (case bindE (point_color b p) (\<lambda>pc.
                if pc \<noteq> EMPTY then Inl AssertionError
                else enemy_eye b c (neighbours p)) of
           Inl e \<Rightarrow> Some (Inl e)
         | Inr played_in_enemy_eye \<Rightarrow>
             (case join_chains_around b p c of
                None \<Rightarrow> None
              | Some (Inl e) \<Rightarrow> Some (Inl e)
              | Some (Inr b1) \<Rightarrow>
                  (case bindE (set_stone Z b1 p c) (\<lambda>b2.
                          remove_liberty_from_neighbouring_chains b2 p) of
                     Inl e \<Rightarrow> Some (Inl e)
                   | Inr b3 \<Rightarrow>
                       (case capture_dead_chains Z b3 p c of
                          None \<Rightarrow> None
                        | Some (Inl e) \<Rightarrow> Some (Inl e)
                        | Some (Inr (b4, stones_captured)) \<Rightarrow>
                            Some (finish_play b4 p played_in_enemy_eye stones_captured))))))"

section \<open>Auxiliary notions for the proofs\<close>

text \<open>
  \<open>spread M\<close> is \<open>n * (sum of squares) - (sum)\<^sup>2\<close> of a multiset: the quantity
  \<^verbatim>\<open>in_atari\<close> compares with zero.
\<close>

definition spread :: "int multiset \<Rightarrow> int" where
  "spread M = int (size M) * sum_mset (image_mset (\<lambda>y. y * y) M) - sum_mset M * sum_mset M"

definition atari_example :: Chain where
  "atari_example = \<lparr>num_stones = 2, num_pseudo_liberties = 2,
     liberty_vertex_sum = 88, liberty_vertex_sum_squared = 3872\<rparr>"

text \<open>
  \<open>on_grid\<close> are the indices of the two arrays, \<open>in_area sz\<close> the points of a
  board of size \<open>sz\<close>, and \<open>fresh_board sz\<close> is the state the constructor computes
  (lemma \<open>GoBoard_init_fresh\<close>).
\<close>

definition on_grid :: "int \<Rightarrow> bool" where
  "on_grid p \<longleftrightarrow> 0 \<le> p \<and> p < VIRTUAL_BOARD_POINTS"

definition in_area :: "int \<Rightarrow> int \<Rightarrow> bool" where
  "in_area sz p \<longleftrightarrow>
     1 \<le> p div VIRTUAL_BOARD_SIZE \<and> p div VIRTUAL_BOARD_SIZE \<le> sz \<and>
     1 \<le> p mod VIRTUAL_BOARD_SIZE \<and> p mod VIRTUAL_BOARD_SIZE \<le> sz"

definition fresh_board :: "int \<Rightarrow> GoBoard" where
  "fresh_board sz =
     \<lparr>board_size = sz, last_ko_point = INVALID_POINT,
      board = (\<lambda>i. \<lparr>chain_head = i, chain_next = i,
                     color = (if in_area sz i then EMPTY else GUARD)\<rparr>),
      chains = (\<lambda>i. if in_area sz i
                     then foldl add_liberty (reset border_chain)
                            (filter (in_area sz) (neighbours i))
                     else border_chain),
      last_captures = replicate 4 INVALID_POINT,
      zobrist_hash = 0\<rparr>"

section \<open>Invariants of the board\<close>

text \<open>
  The fields of the vertex in slot \<open>p\<close>, read without the index check: on the grid
  they are what \<^verbatim>\<open>point_color\<close> and \<^verbatim>\<open>chain_head\<close> return.
\<close>

abbreviation colr :: "GoBoard \<Rightarrow> int \<Rightarrow> Color" where
  "colr b p \<equiv> color (board b p)"

abbreviation head :: "GoBoard \<Rightarrow> int \<Rightarrow> int" where
  "head b p \<equiv> chain_head (board b p)"

abbreviation nx :: "GoBoard \<Rightarrow> int \<Rightarrow> int" where
  "nx b p \<equiv> chain_next (board b p)"

definition is_stone :: "Color \<Rightarrow> bool" where
  "is_stone c \<longleftrightarrow> c = BLACK \<or> c = WHITE"

text \<open>
  \<open>path f xs e\<close>: following \<open>f\<close> from the first element of \<open>xs\<close> visits \<open>xs\<close>
  in order and then reaches \<open>e\<close>.
\<close>

fun path :: "(int \<Rightarrow> int) \<Rightarrow> int list \<Rightarrow> int \<Rightarrow> bool" where
  "path f [] e = True"
| "path f [x] e = (f x = e)"
| "path f (x # y # r) e = (f x = y \<and> path f (y # r) e)"

text \<open>
  \<open>chain_list cl b h xs\<close>: the stones (for the colors \<open>cl\<close>) whose chain head is
  \<open>h\<close> are the points of \<open>xs\<close>, one time each; \<^verbatim>\<open>chain_next\<close> runs through
  \<open>xs\<close> and back to its first point; \<open>h\<close> is one of them; they have one color; and
  the chain in slot \<open>h\<close> counts them.
\<close>

definition chain_list :: "(int \<Rightarrow> Color) \<Rightarrow> GoBoard \<Rightarrow> int \<Rightarrow> int list \<Rightarrow> bool" where
  "chain_list cl b h xs \<longleftrightarrow>
     distinct xs \<and> h \<in> set xs \<and> path (nx b) xs (hd xs) \<and>
     set xs = {q. on_grid q \<and> is_stone (cl q) \<and> head b q = h} \<and>
     (\<forall>q \<in> set xs. cl q = cl h) \<and>
     num_stones (chains b h) = int (length xs)"

definition struct_inv :: "(int \<Rightarrow> Color) \<Rightarrow> GoBoard \<Rightarrow> bool" where
  "struct_inv cl b \<longleftrightarrow>
     (\<forall>q. on_grid q \<longrightarrow>
        (if is_stone (cl q) then (\<exists>xs. chain_list cl b (head b q) xs)
         else head b q = q \<and> nx b q = q))"

text \<open>
  \<open>emp_inv ce lv b\<close>: the chain slot of every point that is empty for \<open>ce\<close> holds the
  statistics of its neighbours that are empty for \<open>lv\<close>.
\<close>

definition emp_inv :: "(int \<Rightarrow> Color) \<Rightarrow> (int \<Rightarrow> Color) \<Rightarrow> GoBoard \<Rightarrow> bool" where
  "emp_inv ce lv b \<longleftrightarrow>
     (\<forall>q. on_grid q \<and> ce q = EMPTY \<longrightarrow>
        tracks (chains b q) (mset (filter (\<lambda>n. lv n = EMPTY) (neighbours q))))"

definition area_inv :: "(int \<Rightarrow> Color) \<Rightarrow> int \<Rightarrow> bool" where
  "area_inv cl sz \<longleftrightarrow> sz \<le> 19 \<and> (\<forall>q. on_grid q \<longrightarrow> (cl q = GUARD \<longleftrightarrow> \<not> in_area sz q))"

definition grid :: "int list" where
  "grid = [0..VIRTUAL_BOARD_POINTS - 1]"

text \<open>The hash of a color array: the values of the stones, combined with XOR.\<close>

definition zvalue :: "zobrist \<Rightarrow> (int \<Rightarrow> Color) \<Rightarrow> int \<Rightarrow> int" where
  "zvalue Z cl p = (if is_stone (cl p) then Z p (cl p) else 0)"

fun zsum :: "(int \<Rightarrow> int) \<Rightarrow> int list \<Rightarrow> int" where
  "zsum f [] = 0"
| "zsum f (p # ps) = f p XOR zsum f ps"

definition hash_of :: "zobrist \<Rightarrow> (int \<Rightarrow> Color) \<Rightarrow> int" where
  "hash_of Z cl = zsum (zvalue Z cl) grid"

definition board_inv :: "zobrist \<Rightarrow> GoBoard \<Rightarrow> bool" where
  "board_inv Z b \<longleftrightarrow>
     area_inv (colr b) (board_size b) \<and>
     struct_inv (colr b) b \<and>
     emp_inv (colr b) (colr b) b \<and>
     length (last_captures b) = 4 \<and>
     zobrist_hash b = hash_of Z (colr b)"

text \<open>
  The boards a program can hold: a constructed board, and the result of
  \<^verbatim>\<open>play\<close> with a black or white stone, called as its contract asks (a pass,
  or an empty point of the board area), when it returns. \<open>legal_reachable\<close> asks
  for \<^verbatim>\<open>is_legal_move\<close> before each move instead.
\<close>

inductive reachable :: "zobrist \<Rightarrow> GoBoard \<Rightarrow> bool" for Z :: zobrist where
  constructed: "GoBoard_init sz = Inr b \<Longrightarrow> reachable Z b"
| played: "reachable Z b \<Longrightarrow> is_stone c \<Longrightarrow>
     p = PASS \<or> (in_board_area b p \<and> is_empty b p = Inr True) \<Longrightarrow>
     play Z b p c = Some (Inr b') \<Longrightarrow> reachable Z b'"

inductive legal_reachable :: "zobrist \<Rightarrow> GoBoard \<Rightarrow> bool" for Z :: zobrist where
  legal_constructed: "GoBoard_init sz = Inr b \<Longrightarrow> legal_reachable Z b"
| legal_played: "legal_reachable Z b \<Longrightarrow> is_stone c \<Longrightarrow>
     is_legal_move b p c = Inr True \<Longrightarrow>
     play Z b p c = Some (Inr b') \<Longrightarrow> legal_reachable Z b'"

definition bump :: "(int \<Rightarrow> int) \<Rightarrow> (Chain \<Rightarrow> Chain) \<Rightarrow> int list \<Rightarrow> (int \<Rightarrow> Chain) \<Rightarrow> int \<Rightarrow> Chain" where
  "bump hf g ns ch = fold (\<lambda>n ch. ch(hf n := g (ch (hf n)))) ns ch"

definition new_chain_at :: "GoBoard \<Rightarrow> int \<Rightarrow> GoBoard" where
  "new_chain_at b p =
     update_chain (update_vertex b p (\<lambda>v. v\<lparr>chain_head := p, chain_next := p\<rparr>)) p
       (\<lambda>ch. foldl add_liberty ((reset ch)\<lparr>num_stones := 1\<rparr>)
                (filter (\<lambda>n. colr b n = EMPTY) (neighbours p)))"

definition inserted :: "GoBoard \<Rightarrow> int \<Rightarrow> int \<Rightarrow> GoBoard" where
  "inserted b p lh =
     update_chain
       (update_vertex
          (update_vertex b p (\<lambda>v. v\<lparr>chain_next := nx b lh, chain_head := lh\<rparr>))
          lh (\<lambda>v. v\<lparr>chain_next := p\<rparr>))
       lh (\<lambda>ch. foldl add_liberty (ch\<lparr>num_stones := num_stones ch + 1\<rparr>)
                 (filter (\<lambda>n. colr b n = EMPTY) (neighbours p)))"

definition merged :: "GoBoard \<Rightarrow> int \<Rightarrow> int \<Rightarrow> GoBoard" where
  "merged b lh n =
     b\<lparr>board := (\<lambda>q. if q = lh then (board b lh)\<lparr>chain_next := nx b n\<rparr>
                     else if q = n then (board b n)\<lparr>chain_head := lh, chain_next := nx b lh\<rparr>
                     else if on_grid q \<and> is_stone (colr b q) \<and> head b q = head b n
                          then (board b q)\<lparr>chain_head := lh\<rparr>
                     else board b q),
       chains := (chains b)(lh := merge (chains b lh) (chains b (head b n)))\<rparr>"

definition join_frame :: "GoBoard \<Rightarrow> GoBoard \<Rightarrow> bool" where
  "join_frame b b' \<longleftrightarrow>
     (\<forall>q. colr b' q = colr b q) \<and> board_size b' = board_size b \<and>
     last_ko_point b' = last_ko_point b \<and> last_captures b' = last_captures b \<and>
     zobrist_hash b' = zobrist_hash b \<and>
     (\<forall>j. \<not> is_stone (colr b j) \<longrightarrow> chains b' j = chains b j)"

definition place_stone :: "zobrist \<Rightarrow> GoBoard \<Rightarrow> int \<Rightarrow> Color \<Rightarrow> (error + GoBoard) option" where
  "place_stone Z b p c =
     (case join_chains_around b p c of
        None \<Rightarrow> None
      | Some (Inl e) \<Rightarrow> Some (Inl e)
      | Some (Inr b1) \<Rightarrow>
          Some (bindE (set_stone Z b1 p c) (\<lambda>b2. remove_liberty_from_neighbouring_chains b2 p)))"

definition cleared :: "zobrist \<Rightarrow> GoBoard \<Rightarrow> int \<Rightarrow> int \<Rightarrow> GoBoard" where
  "cleared Z b h cur =
     b\<lparr>board := (board b)(cur := (board b cur)\<lparr>chain_head := cur, chain_next := cur, color := EMPTY\<rparr>),
       chains := bump (head b) (\<lambda>ch. add_liberty ch cur)
                   (filter (\<lambda>n. head b n \<noteq> h \<or> colr b n = EMPTY) (neighbours cur))
                   ((chains b)(cur := foldl add_liberty ((reset (chains b cur))\<lparr>num_stones := 1\<rparr>)
                                        (filter (\<lambda>n. colr b n = EMPTY) (neighbours cur)))),
       zobrist_hash := zobrist_hash b XOR Z cur (colr b cur)\<rparr>"

definition mid_struct :: "GoBoard \<Rightarrow> int \<Rightarrow> int list \<Rightarrow> bool" where
  "mid_struct b h rem \<longleftrightarrow>
     on_grid h \<and> (h \<in> set rem \<or> colr b h = EMPTY) \<and> distinct rem \<and>
     (\<forall>q. on_grid q \<longrightarrow>
        (if q \<in> set rem then head b q = h \<and> is_stone (colr b q)
         else if is_stone (colr b q)
              then on_grid (head b q) \<and> is_stone (colr b (head b q)) \<and> head b q \<notin> set rem
              else head b q = q)) \<and>
     (\<forall>q \<in> set rem. on_grid q)"

definition mid_inv :: "zobrist \<Rightarrow> GoBoard \<Rightarrow> int \<Rightarrow> int list \<Rightarrow> bool" where
  "mid_inv Z b h rem \<longleftrightarrow>
     area_inv (colr b) (board_size b) \<and> emp_inv (colr b) (colr b) b \<and>
     zobrist_hash b = hash_of Z (colr b) \<and> mid_struct b h rem"

fun removed :: "zobrist \<Rightarrow> GoBoard \<Rightarrow> int \<Rightarrow> int list \<Rightarrow> GoBoard" where
  "removed Z b h [] = b"
| "removed Z b h (q # qs) = removed Z (cleared Z b h q) h qs"

fun gains :: "GoBoard \<Rightarrow> int \<Rightarrow> int list \<Rightarrow> int list" where
  "gains b j [] = []"
| "gains b j (cur # rest) =
     replicate (length (filter (\<lambda>n. head b n = j) (neighbours cur))) cur @ gains b j rest"

definition captured :: "GoBoard \<Rightarrow> GoBoard \<Rightarrow> int set" where
  "captured b b' = {q. on_grid q \<and> is_stone (colr b q) \<and> colr b' q = EMPTY}"

definition in_eye :: "GoBoard \<Rightarrow> int \<Rightarrow> Color \<Rightarrow> bool" where
  "in_eye b p c = list_all (\<lambda>n. colr b n \<noteq> c \<and> colr b n \<noteq> EMPTY) (neighbours p)"

definition taken :: "GoBoard \<Rightarrow> GoBoard \<Rightarrow> Color \<Rightarrow> int list" where
  "taken b b' c = filter (\<lambda>q. colr b q = opponent c \<and> colr b' q = EMPTY) grid"


definition example_table :: zobrist where
  "example_table p c = 4 * p + (case c of BLACK \<Rightarrow> 1 | WHITE \<Rightarrow> 2 | EMPTY \<Rightarrow> 0 | GUARD \<Rightarrow> 3)"

definition returned :: "(error + GoBoard) option \<Rightarrow> bool" where
  "returned r = (case r of Some (Inr b) \<Rightarrow> True | _ \<Rightarrow> False)"

definition the_board :: "(error + GoBoard) option \<Rightarrow> GoBoard" where
  "the_board r = (case r of Some (Inr b) \<Rightarrow> b | _ \<Rightarrow> fresh_board 0)"

definition board1 :: GoBoard where
  "board1 = the_board (play example_table (fresh_board 9) 22 BLACK)"

section \<open>Chain statistics and atari\<close>


lemma cs_step:
  "int (size (add_mset x M)) * sum_mset (image_mset (\<lambda>y. y * y) (add_mset x M))
     - sum_mset (add_mset x M) * sum_mset (add_mset x M)
   = (int (size M) * sum_mset (image_mset (\<lambda>y. y * y) M) - sum_mset M * sum_mset M)
     + sum_mset (image_mset (\<lambda>y. (y - x) * (y - x)) M)" for x :: int
proof -
  have "sum_mset (image_mset (\<lambda>y. (y - x) * (y - x)) M)
      = sum_mset (image_mset (\<lambda>y. y * y) M) - 2 * x * sum_mset M + int (size M) * (x * x)"
    by (induction M) (simp_all add: algebra_simps)
  then show ?thesis by (simp add: algebra_simps)
qed

lemma sq_sum_nonneg: "0 \<le> sum_mset (image_mset (\<lambda>y. (y - x) * (y - x)) M)" for x :: int
  by (induction M) simp_all

lemma sq_sum_zero_iff:
  "sum_mset (image_mset (\<lambda>y. (y - x) * (y - x)) M) = 0 \<longleftrightarrow> (\<forall>y \<in># M. y = x)" for x :: int
proof (induction M)
  case empty
  then show ?case by simp
next
  case (add a M)
  have "0 \<le> (a - x) * (a - x)" by simp
  with sq_sum_nonneg [of x M] add show ?case
    by (auto simp: add_nonneg_eq_0_iff)
qed

lemma spread_nonneg: "0 \<le> spread M"
  unfolding spread_def
proof (induction M)
  case empty
  then show ?case by simp
next
  case (add x M)
  show ?case using add sq_sum_nonneg [of x M] by (simp only: cs_step)
qed

lemma spread_zero_iff: "spread M = 0 \<longleftrightarrow> (\<forall>x \<in># M. \<forall>y \<in># M. x = y)"
proof (induction M)
  case empty
  then show ?case by (simp add: spread_def)
next
  case (add x M)
  have "spread (add_mset x M) = spread M + sum_mset (image_mset (\<lambda>y. (y - x) * (y - x)) M)"
    unfolding spread_def by (rule cs_step)
  then have "spread (add_mset x M) = 0 \<longleftrightarrow> spread M = 0 \<and> (\<forall>y \<in># M. y = x)"
    using spread_nonneg [of M] sq_sum_nonneg [of x M] sq_sum_zero_iff [of x M]
    by (auto simp: add_nonneg_eq_0_iff)
  with add show ?case by auto
qed

lemma in_atari_tracks: "tracks ch M \<Longrightarrow> in_atari ch \<longleftrightarrow> spread M = 0"
  by (auto simp: tracks_def in_atari_def spread_def)

lemma sum_mset_const: "\<forall>y \<in># M. y = x \<Longrightarrow> sum_mset M = int (size M) * x" for x :: int
  by (induction M) (simp_all add: algebra_simps)

text \<open>
  Claim C2. For a chain whose statistics are those of a non-empty multiset of liberty
  coordinates, \<^verbatim>\<open>in_atari\<close> holds exactly when the multiset has one distinct
  coordinate, however often it is counted; \<^verbatim>\<open>single_liberty\<close> then returns that
  coordinate, and the sum is divided evenly by the count.
\<close>

theorem in_atari_single_liberty:
  assumes "tracks ch M" and "M \<noteq> {#}"
  shows "(in_atari ch \<longleftrightarrow> (\<exists>x. set_mset M = {x})) \<and>
         (\<forall>x. set_mset M = {x} \<longrightarrow>
            single_liberty ch = Inr x \<and>
            liberty_vertex_sum ch mod num_pseudo_liberties ch = 0 \<and>
            liberty_vertex_sum ch div num_pseudo_liberties ch = x)"
proof -
  have one: "(\<forall>x \<in># M. \<forall>y \<in># M. x = y) \<longleftrightarrow> (\<exists>x. set_mset M = {x})"
  proof
    assume eq: "\<forall>x \<in># M. \<forall>y \<in># M. x = y"
    from assms(2) obtain a where "a \<in># M" by (auto simp: multiset_nonemptyE)
    with eq have "set_mset M = {a}" by auto
    then show "\<exists>x. set_mset M = {x}" ..
  next
    assume "\<exists>x. set_mset M = {x}"
    then show "\<forall>x \<in># M. \<forall>y \<in># M. x = y" by auto
  qed
  have atari: "in_atari ch \<longleftrightarrow> (\<exists>x. set_mset M = {x})"
    using in_atari_tracks [OF assms(1)] spread_zero_iff [of M] one by simp
  have single: "single_liberty ch = Inr x \<and>
            liberty_vertex_sum ch mod num_pseudo_liberties ch = 0 \<and>
            liberty_vertex_sum ch div num_pseudo_liberties ch = x" if "set_mset M = {x}" for x
  proof -
    from that have all: "\<forall>y \<in># M. y = x" by auto
    have n: "num_pseudo_liberties ch = int (size M)" and s: "liberty_vertex_sum ch = int (size M) * x"
      using assms(1) sum_mset_const [OF all] by (simp_all add: tracks_def)
    have pos: "0 < int (size M)" using assms(2) by (simp add: nonempty_has_size)
    have at: "in_atari ch" using atari that by blast
    show ?thesis using pos at assms(2) by (simp add: single_liberty_def n s)
  qed
  show ?thesis using atari single by blast
qed

theorem in_atari_single_liberty_witness:
  "tracks atari_example {#44, 44#} \<and> {#44, 44::int#} \<noteq> {#} \<and> in_atari atari_example \<and>
   single_liberty atari_example = Inr 44"
proof -
  have t: "tracks atari_example {#44, 44#}" by (simp add: tracks_def atari_example_def)
  have ne: "{#44, 44::int#} \<noteq> {#}" by simp
  have s: "set_mset {#44, 44::int#} = {44}" by simp
  from in_atari_single_liberty [OF t ne] s t ne show ?thesis by blast
qed


section \<open>Parsing coordinates\<close>

lemma parse_point_unfold:
  assumes "str_lower s \<noteq> pass_str" "2 \<le> length (str_lower s)" "length (str_lower s) \<le> 3"
  shows "parse_point str_lower py_int s =
           (case py_int (tl (str_lower s)) of
              Inl e \<Rightarrow> Inl e
            | Inr row \<Rightarrow> Inr (row * VIRTUAL_BOARD_SIZE + (int (hd (str_lower s)) - 97
                  + (if hd (str_lower s) \<le> 105 then 1 else 0))))"
  using assms by (simp add: parse_point_def Let_def)

lemma parse_point_short:
  assumes "str_lower s \<noteq> pass_str" "length (str_lower s) < 2 \<or> 3 < length (str_lower s)"
  shows "parse_point str_lower py_int s = Inr INVALID_POINT"
  using assms by (auto simp: parse_point_def Let_def)

text \<open>
  Claim C8 as stated fails: \<^verbatim>\<open>"xx"\<close>, the code points 120 and 120, is neither
  \<^verbatim>\<open>"pass"\<close> nor a well-formed coordinate, and \<^verbatim>\<open>parse_point\<close> raises
  \<^verbatim>\<open>ValueError\<close> on it, from \<^verbatim>\<open>int("x")\<close>, instead of returning the
  INVALID sentinel.
\<close>

theorem parse_point_malformed_counterexample:
  "ascii_lower [120, 120] \<noteq> pass_str \<and> \<not> well_formed_coordinate [120, 120] \<and>
   parse_point ascii_lower ascii_int [120, 120] = Inl ValueError \<and>
   parse_point ascii_lower ascii_int [120, 120] \<noteq> Inr INVALID_POINT"
proof -
  have l: "ascii_lower [120, 120] = [120, 120]"
    by (simp add: ascii_lower_def)
  have w: "\<not> well_formed_coordinate [120, 120]"
    by (simp add: well_formed_coordinate_def is_digit_def)
  have i: "ascii_int [120] = Inl ValueError"
    by (simp add: ascii_int_def strip_def is_space_def unsigned_int_def is_digit_def)
  have p: "parse_point ascii_lower ascii_int [120, 120] = Inl ValueError"
    by (simp add: parse_point_def l i pass_str_def Let_def)
  show ?thesis using l w p by (simp add: pass_str_def)
qed

text \<open>
  Claim C8, amended. Let \<open>t\<close> be the lower-cased string, and not \<^verbatim>\<open>"pass"\<close>.
  When the length of \<open>t\<close> is outside 2 to 3 the result is the INVALID sentinel and
  nothing is raised. When it is 2 or 3 the result is \<open>row * 21 + col\<close> if
  \<^verbatim>\<open>int\<close> returns \<open>row\<close> for \<open>t\<close> without its first character, and the
  exception of \<^verbatim>\<open>int\<close> otherwise. So \<^verbatim>\<open>parse_point\<close> raises exactly when
  the length of \<open>t\<close> is 2 or 3 and \<^verbatim>\<open>int\<close> raises. This holds whatever the two
  library functions do.
\<close>

theorem parse_point_cases:
  assumes "str_lower s \<noteq> pass_str"
  shows "(length (str_lower s) < 2 \<or> 3 < length (str_lower s) \<longrightarrow>
            parse_point str_lower py_int s = Inr INVALID_POINT) \<and>
         (2 \<le> length (str_lower s) \<and> length (str_lower s) \<le> 3 \<longrightarrow>
            (\<forall>row. py_int (tl (str_lower s)) = Inr row \<longrightarrow>
               parse_point str_lower py_int s =
                 Inr (row * VIRTUAL_BOARD_SIZE + (int (hd (str_lower s)) - 97
                  + (if hd (str_lower s) \<le> 105 then 1 else 0)))) \<and>
            (\<forall>e. py_int (tl (str_lower s)) = Inl e \<longrightarrow>
               parse_point str_lower py_int s = Inl e)) \<and>
         ((\<exists>e. parse_point str_lower py_int s = Inl e) \<longleftrightarrow>
            2 \<le> length (str_lower s) \<and> length (str_lower s) \<le> 3 \<and>
            (\<exists>e. py_int (tl (str_lower s)) = Inl e))"
proof (intro conjI impI allI)
  assume "length (str_lower s) < 2 \<or> 3 < length (str_lower s)"
  then show "parse_point str_lower py_int s = Inr INVALID_POINT"
    using parse_point_short [of str_lower s py_int] assms by simp
next
  fix row
  assume "2 \<le> length (str_lower s) \<and> length (str_lower s) \<le> 3"
    and "py_int (tl (str_lower s)) = Inr row"
  then show "parse_point str_lower py_int s =
      Inr (row * VIRTUAL_BOARD_SIZE + (int (hd (str_lower s)) - 97
        + (if hd (str_lower s) \<le> 105 then 1 else 0)))"
    using parse_point_unfold [of str_lower s py_int] assms by simp
next
  fix e
  assume "2 \<le> length (str_lower s) \<and> length (str_lower s) \<le> 3"
    and "py_int (tl (str_lower s)) = Inl e"
  then show "parse_point str_lower py_int s = Inl e"
    using parse_point_unfold [of str_lower s py_int] assms by simp
next
  show "(\<exists>e. parse_point str_lower py_int s = Inl e) \<longleftrightarrow>
      2 \<le> length (str_lower s) \<and> length (str_lower s) \<le> 3 \<and>
      (\<exists>e. py_int (tl (str_lower s)) = Inl e)"
  proof (cases "2 \<le> length (str_lower s) \<and> length (str_lower s) \<le> 3")
    case True
    then have "parse_point str_lower py_int s =
        (case py_int (tl (str_lower s)) of
           Inl e \<Rightarrow> Inl e
         | Inr row \<Rightarrow> Inr (row * VIRTUAL_BOARD_SIZE + (int (hd (str_lower s)) - 97
             + (if hd (str_lower s) \<le> 105 then 1 else 0))))"
      using parse_point_unfold [of str_lower s py_int] assms by simp
    with True show ?thesis by (cases "py_int (tl (str_lower s))") simp_all
  next
    case False
    then have "length (str_lower s) < 2 \<or> 3 < length (str_lower s)" by auto
    then have "parse_point str_lower py_int s = Inr INVALID_POINT"
      using parse_point_short [of str_lower s py_int] assms by simp
    with False show ?thesis by auto
  qed
qed

text \<open>
  The theorem at \<^verbatim>\<open>"a"\<close>, \<^verbatim>\<open>"D4"\<close> and \<^verbatim>\<open>"q?"\<close>, with the library
  functions on ASCII strings.
\<close>

theorem parse_point_cases_witness:
  "ascii_lower [97] \<noteq> pass_str \<and> parse_point ascii_lower ascii_int [97] = Inr INVALID_POINT \<and>
   ascii_lower [68, 52] \<noteq> pass_str \<and> parse_point ascii_lower ascii_int [68, 52] = Inr 88 \<and>
   ascii_lower [113, 63] \<noteq> pass_str \<and>
   parse_point ascii_lower ascii_int [113, 63] = Inl ValueError"
proof -
  have l1: "ascii_lower [97] = [97]" and l2: "ascii_lower [68, 52] = [100, 52]"
    and l3: "ascii_lower [113, 63] = [113, 63]"
    by (simp_all add: ascii_lower_def)
  have n1: "ascii_lower [97] \<noteq> pass_str" and n2: "ascii_lower [68, 52] \<noteq> pass_str"
    and n3: "ascii_lower [113, 63] \<noteq> pass_str"
    by (simp_all add: l1 l2 l3 pass_str_def)
  have i2: "ascii_int [52] = Inr 4"
    by (simp add: ascii_int_def strip_def is_space_def unsigned_int_def is_digit_def)
  have i3: "ascii_int [63] = Inl ValueError"
    by (simp add: ascii_int_def strip_def is_space_def unsigned_int_def is_digit_def)
  from parse_point_cases [of ascii_lower "[97]" ascii_int, OF n1]
  have "parse_point ascii_lower ascii_int [97] = Inr INVALID_POINT" by (simp add: l1)
  moreover from parse_point_cases [of ascii_lower "[68, 52]" ascii_int, OF n2] i2
  have "parse_point ascii_lower ascii_int [68, 52] = Inr 88"
    by (simp add: l2 VIRTUAL_BOARD_SIZE_def)
  moreover from parse_point_cases [of ascii_lower "[113, 63]" ascii_int, OF n3] i3
  have "parse_point ascii_lower ascii_int [113, 63] = Inl ValueError" by (simp add: l3)
  ultimately show ?thesis using n1 n2 n3 by simp
qed


section \<open>The error monad and the grid\<close>

lemma bindE_Inr [simp]: "bindE (Inr x) f = f x"
  by (simp add: bindE_def)

lemma bindE_Inl [simp]: "bindE (Inl e) f = Inl e"
  by (simp add: bindE_def)

lemma slot_on_grid [simp]: "on_grid p \<Longrightarrow> slot p = Inr p"
  by (simp add: slot_def on_grid_def)

lemma divmod21: "0 \<le> c \<Longrightarrow> c < 21 \<Longrightarrow> (r * 21 + c) div 21 = r \<and> (r * 21 + c) mod 21 = c" for r c :: int
  by (simp add: div_pos_pos_trivial mod_pos_pos_trivial)

lemma split21: "p = 21 * (p div 21) + p mod 21" for p :: int
  by simp

lemma in_area_bounds: "in_area sz p \<Longrightarrow> sz \<le> 19 \<Longrightarrow> 22 \<le> p \<and> p \<le> 418"
proof -
  assume a: "in_area sz p" and s: "sz \<le> 19"
  have "p = 21 * (p div 21) + p mod 21" by simp
  moreover from a s have "1 \<le> p div 21" "p div 21 \<le> 19" "1 \<le> p mod 21" "p mod 21 \<le> 19"
    by (simp_all add: in_area_def VIRTUAL_BOARD_SIZE_def)
  ultimately show ?thesis by linarith
qed

lemma in_area_on_grid: "in_area sz p \<Longrightarrow> sz \<le> 19 \<Longrightarrow> on_grid p"
  using in_area_bounds [of sz p]
  by (simp add: on_grid_def VIRTUAL_BOARD_POINTS_def VIRTUAL_BOARD_SIZE_def)

lemma in_area_neighbours_on_grid:
  "in_area sz p \<Longrightarrow> sz \<le> 19 \<Longrightarrow> n \<in> set (neighbours p) \<Longrightarrow> on_grid n"
  using in_area_bounds [of sz p]
  by (auto simp: on_grid_def VIRTUAL_BOARD_POINTS_def VIRTUAL_BOARD_SIZE_def neighbours_def)

lemma point_from_2d_in_area:
  assumes "0 \<le> row" "row < sz" "0 \<le> col" "col < sz" "sz \<le> 20"
  shows "in_area sz (point_from_2d row col)"
proof -
  have "point_from_2d row col = (row + 1) * 21 + (col + 1)"
    by (simp add: point_from_2d_def VIRTUAL_BOARD_SIZE_def)
  moreover have "0 \<le> col + 1" "col + 1 < 21" using assms by simp_all
  ultimately have "point_from_2d row col div 21 = row + 1" "point_from_2d row col mod 21 = col + 1"
    using divmod21 [of "col + 1" "row + 1"] by simp_all
  with assms show ?thesis by (simp add: in_area_def VIRTUAL_BOARD_SIZE_def)
qed

lemma point_from_2d_inj:
  assumes "0 \<le> c" "c < 20" "0 \<le> c'" "c' < 20" "point_from_2d r c = point_from_2d r' c'"
  shows "r = r' \<and> c = c'"
proof -
  have e: "point_from_2d r c = (r + 1) * 21 + (c + 1)" "point_from_2d r' c' = (r' + 1) * 21 + (c' + 1)"
    by (simp_all add: point_from_2d_def VIRTUAL_BOARD_SIZE_def)
  have "point_from_2d r c div 21 = r + 1" "point_from_2d r c mod 21 = c + 1"
    using divmod21 [of "c + 1" "r + 1"] assms e by simp_all
  moreover have "point_from_2d r' c' div 21 = r' + 1" "point_from_2d r' c' mod 21 = c' + 1"
    using divmod21 [of "c' + 1" "r' + 1"] assms e by simp_all
  ultimately show ?thesis using assms(5) by simp
qed

lemma set_board_points:
  assumes "sz \<le> 20"
  shows "set (board_points sz) = {p. in_area sz p}"
proof (intro set_eqI iffI)
  fix p assume "p \<in> set (board_points sz)"
  then obtain row col where "0 \<le> row" "row < sz" "0 \<le> col" "col < sz" "p = point_from_2d row col"
    by (auto simp: board_points_def)
  with assms show "p \<in> {p. in_area sz p}" by (simp add: point_from_2d_in_area)
next
  fix p assume "p \<in> {p. in_area sz p}"
  then have a: "in_area sz p" by simp
  define row where "row = p div 21 - 1"
  define col where "col = p mod 21 - 1"
  have "p = point_from_2d row col"
    by (simp add: point_from_2d_def VIRTUAL_BOARD_SIZE_def row_def col_def)
  moreover have r: "row \<in> set [0..sz - 1]" and c: "col \<in> set [0..sz - 1]"
    using a by (simp_all add: in_area_def VIRTUAL_BOARD_SIZE_def row_def col_def)
  ultimately have 2: "p \<in> set (map (\<lambda>col. point_from_2d row col) [0..sz - 1])"
    by (simp only: set_map) (rule imageI, rule c)
  have 1: "map (\<lambda>col. point_from_2d row col) [0..sz - 1]
             \<in> set (map (\<lambda>row. map (\<lambda>col. point_from_2d row col) [0..sz - 1]) [0..sz - 1])"
    by (simp only: set_map) (rule imageI, rule r)
  show "p \<in> set (board_points sz)"
    unfolding board_points_def set_concat using 1 2 by (rule UN_I)
qed

lemma distinct_board_points:
  assumes "sz \<le> 20"
  shows "distinct (board_points sz)"
  unfolding board_points_def
proof (rule distinct_concat)
  show "distinct (map (\<lambda>row. map (point_from_2d row) [0..sz - 1]) [0..sz - 1])"
  proof (cases "sz \<le> 0")
    case True
    then show ?thesis by simp
  next
    case False
    have "inj_on (\<lambda>row. map (point_from_2d row) [0..sz - 1]) (set [0..sz - 1])"
    proof (rule inj_onI)
      fix r r' assume "map (point_from_2d r) [0..sz - 1] = map (point_from_2d r') [0..sz - 1]"
      moreover have "0 \<in> set [0..sz - 1]" using False by simp
      ultimately have "point_from_2d r 0 = point_from_2d r' 0" by (metis map_eq_conv)
      then show "r = r'" by (simp add: point_from_2d_def VIRTUAL_BOARD_SIZE_def)
    qed
    then show ?thesis by (simp add: distinct_map)
  qed
next
  fix ys assume "ys \<in> set (map (\<lambda>row. map (point_from_2d row) [0..sz - 1]) [0..sz - 1])"
  then obtain r where "ys = map (point_from_2d r) [0..sz - 1]" by auto
  moreover have "inj_on (point_from_2d r) (set [0..sz - 1])"
    by (rule inj_onI) (simp add: point_from_2d_def)
  ultimately show "distinct ys" by (simp add: distinct_map)
next
  fix ys zs
  assume "ys \<in> set (map (\<lambda>row. map (point_from_2d row) [0..sz - 1]) [0..sz - 1])"
    and "zs \<in> set (map (\<lambda>row. map (point_from_2d row) [0..sz - 1]) [0..sz - 1])"
    and ne: "ys \<noteq> zs"
  then obtain r r' where ys: "ys = map (point_from_2d r) [0..sz - 1]"
    and zs: "zs = map (point_from_2d r') [0..sz - 1]" by auto
  show "set ys \<inter> set zs = {}"
  proof (rule ccontr)
    assume "set ys \<inter> set zs \<noteq> {}"
    then obtain p where "p \<in> set ys" "p \<in> set zs" by auto
    then obtain c c' where "0 \<le> c" "c < sz" "0 \<le> c'" "c' < sz"
      "p = point_from_2d r c" "p = point_from_2d r' c'"
      using ys zs by auto
    with assms have "r = r'" using point_from_2d_inj [of c c' r r'] by simp
    with ys zs ne show False by simp
  qed
qed

lemma init_colors_closed:
  "\<forall>p \<in> set ps. on_grid p \<Longrightarrow>
   init_colors b ps = Inr (b\<lparr>board := (\<lambda>i. if i \<in> set ps then (board b i)\<lparr>color := EMPTY\<rparr> else board b i),
                            chains := (\<lambda>i. if i \<in> set ps then reset (chains b i) else chains b i)\<rparr>)"
proof (induction ps arbitrary: b)
  case Nil
  then show ?case by simp
next
  case (Cons p ps)
  let ?b = "update_chain (update_vertex b p (\<lambda>v. v\<lparr>color := EMPTY\<rparr>)) p reset"
  have "init_colors b (p # ps) = init_colors ?b ps" using Cons.prems by simp
  also have "\<dots> = Inr (?b\<lparr>board := (\<lambda>i. if i \<in> set ps then (board ?b i)\<lparr>color := EMPTY\<rparr> else board ?b i),
                            chains := (\<lambda>i. if i \<in> set ps then reset (chains ?b i) else chains ?b i)\<rparr>)"
    using Cons.prems by (intro Cons.IH) simp
  also have "\<dots> = Inr (b\<lparr>board := (\<lambda>i. if i \<in> set (p # ps) then (board b i)\<lparr>color := EMPTY\<rparr> else board b i),
                            chains := (\<lambda>i. if i \<in> set (p # ps) then reset (chains b i) else chains b i)\<rparr>)"
    by (auto simp: update_vertex_def update_chain_def fun_eq_iff reset_def intro!: GoBoard.equality)
  finally show ?case .
qed

lemma seed_liberties_closed:
  "on_grid p \<Longrightarrow> \<forall>n \<in> set ns. on_grid n \<Longrightarrow>
   seed_liberties b p ns =
     Inr (update_chain b p (\<lambda>ch. foldl add_liberty ch (filter (\<lambda>n. color (board b n) = EMPTY) ns)))"
proof (induction ns arbitrary: b)
  case Nil
  then show ?case by (simp add: update_chain_def)
next
  case (Cons n ns)
  then show ?case
    by (simp add: is_empty_def update_chain_def)
qed

lemma init_liberties_closed:
  "distinct ps \<Longrightarrow> \<forall>p \<in> set ps. on_grid p \<and> (\<forall>n \<in> set (neighbours p). on_grid n) \<Longrightarrow>
   init_liberties b ps =
     Inr (b\<lparr>chains := (\<lambda>i. if i \<in> set ps
                             then foldl add_liberty (chains b i)
                                    (filter (\<lambda>n. color (board b n) = EMPTY) (neighbours i))
                             else chains b i)\<rparr>)"
proof (induction ps arbitrary: b)
  case Nil
  then show ?case by simp
next
  case (Cons p ps)
  then show ?case
    by (auto simp: seed_liberties_closed update_chain_def fun_eq_iff)
qed

lemma GoBoard_init_fresh:
  assumes "sz \<le> 19"
  shows "GoBoard_init sz = Inr (fresh_board sz)"
proof -
  have s: "set (board_points sz) = {p. in_area sz p}" using assms by (simp add: set_board_points)
  have g: "\<forall>p \<in> set (board_points sz). on_grid p \<and> (\<forall>n \<in> set (neighbours p). on_grid n)"
    using assms s in_area_on_grid in_area_neighbours_on_grid by blast
  have d: "distinct (board_points sz)" using assms by (simp add: distinct_board_points)
  show ?thesis
    unfolding GoBoard_init_def
    using g by (simp add: init_colors_closed init_liberties_closed [OF d] s guard_board_def
        fresh_board_def fun_eq_iff)
qed

section \<open>A new board\<close>

lemma in_board_area_iff:
  assumes "board_size b \<le> 19"
  shows "in_board_area b p \<longleftrightarrow> in_area (board_size b) p"
proof (cases "p = INVALID_POINT \<or> p = PASS")
  case True
  then have "\<not> in_area (board_size b) p"
    using assms by (auto simp: in_area_def INVALID_POINT_def PASS_def VIRTUAL_BOARD_SIZE_def)
  moreover from True have "\<not> in_board_area b p"
    by (auto simp: in_board_area_def point_to_2d_def)
  ultimately show ?thesis by simp
next
  case False
  then show ?thesis
    by (auto simp: in_board_area_def point_to_2d_def in_area_def)
qed

lemma tracks_reset: "tracks (reset ch) {#}"
  by (simp add: tracks_def reset_def)

lemma tracks_add_liberty: "tracks ch M \<Longrightarrow> tracks (add_liberty ch p) (add_mset p M)"
  by (simp add: tracks_def add_liberty_def)

lemma tracks_remove_liberty: "tracks ch (add_mset p M) \<Longrightarrow> tracks (remove_liberty ch p) M"
  by (simp add: tracks_def remove_liberty_def)

lemma tracks_foldl: "tracks ch M \<Longrightarrow> tracks (foldl add_liberty ch xs) (M + mset xs)"
proof (induction xs arbitrary: ch M)
  case Nil
  then show ?case by simp
next
  case (Cons a xs)
  from Cons.prems have "tracks (add_liberty ch a) (add_mset a M)" by (rule tracks_add_liberty)
  then have "tracks (foldl add_liberty (add_liberty ch a) xs) (add_mset a M + mset xs)"
    by (rule Cons.IH)
  then show ?case by simp
qed

lemma distinct_neighbours: "distinct (neighbours p)"
  by (simp add: neighbours_def VIRTUAL_BOARD_SIZE_def)

lemma pseudo_liberty_distinct:
  assumes t: "tracks ch (mset xs)" and d: "distinct xs"
  shows "(if num_pseudo_liberties ch = 0 then Inr 0 else if in_atari ch then Inr 1
          else Inr (num_pseudo_liberties ch)) = (Inr (int (length xs)) :: error + int)"
proof (cases "xs = []")
  case True
  with t show ?thesis by (simp add: tracks_def)
next
  case False
  have n: "num_pseudo_liberties ch = int (length xs)" using t by (simp add: tracks_def)
  have "in_atari ch \<longleftrightarrow> spread (mset xs) = 0" using t by (rule in_atari_tracks)
  also have "\<dots> \<longleftrightarrow> (\<forall>x \<in> set xs. \<forall>y \<in> set xs. x = y)" by (simp add: spread_zero_iff)
  also have "\<dots> \<longleftrightarrow> length xs = 1"
  proof
    assume eq: "\<forall>x \<in> set xs. \<forall>y \<in> set xs. x = y"
    from False obtain a where a: "a \<in> set xs" by (cases xs) auto
    with eq have "set xs = {a}" by auto
    then have "card (set xs) = 1" by simp
    with d show "length xs = 1" by (simp add: distinct_card)
  next
    assume "length xs = 1"
    then obtain a where "xs = [a]" by (cases xs) auto
    then show "\<forall>x \<in> set xs. \<forall>y \<in> set xs. x = y" by simp
  qed
  finally show ?thesis using n False by auto
qed

lemma fresh_board_point:
  assumes sz: "sz \<le> 19" and p: "in_area sz p"
  shows "point_color (fresh_board sz) p = Inr EMPTY"
    and "pseudo_liberty (fresh_board sz) p = Inr (int (length (filter (in_area sz) (neighbours p))))"
proof -
  have g: "on_grid p" using p sz by (rule in_area_on_grid)
  show "point_color (fresh_board sz) p = Inr EMPTY"
    using g p by (simp add: point_color_def fresh_board_def)
  let ?xs = "filter (in_area sz) (neighbours p)"
  let ?ch = "foldl add_liberty (reset border_chain) ?xs"
  have c: "chain_of (fresh_board sz) p = Inr ?ch"
    using g p by (simp add: chain_of_def chain_slot_def chain_head_of_def fresh_board_def)
  have "tracks ?ch ({#} + mset ?xs)" using tracks_reset by (rule tracks_foldl)
  then have t: "tracks ?ch (mset ?xs)" by simp
  have d: "distinct ?xs" using distinct_neighbours by simp
  show "pseudo_liberty (fresh_board sz) p = Inr (int (length ?xs))"
    by (simp only: pseudo_liberty_def c bindE_Inr pseudo_liberty_distinct [OF t d])
qed

text \<open>
  Claim C9 as stated fails on the edge of the board: the corner point A1 (22) of a new
  9x9 board has two guard neighbours and two pseudo-liberties, not four.
\<close>

theorem fresh_board_corner_counterexample:
  "GoBoard_init 9 = Inr (fresh_board 9) \<and> in_board_area (fresh_board 9) 22 \<and>
   pseudo_liberty (fresh_board 9) 22 = Inr 2 \<and> pseudo_liberty (fresh_board 9) 22 \<noteq> Inr 4"
proof -
  have i: "GoBoard_init 9 = Inr (fresh_board 9)" by (simp add: GoBoard_init_fresh)
  have a: "in_board_area (fresh_board 9) 22"
    by (simp add: in_board_area_def point_to_2d_def fresh_board_def INVALID_POINT_def PASS_def
        VIRTUAL_BOARD_SIZE_def)
  have ia: "in_area 9 22" by (simp add: in_area_def VIRTUAL_BOARD_SIZE_def)
  have "filter (in_area 9) (neighbours 22) = [43, 23]"
    by (simp add: neighbours_def in_area_def VIRTUAL_BOARD_SIZE_def)
  then have "pseudo_liberty (fresh_board 9) 22 = Inr 2"
    using fresh_board_point(2) [OF _ ia] by simp
  with i a show ?thesis by simp
qed

text \<open>
  Claim C9, amended. For a board size of 9, 13 or 19 the constructor returns a board on
  which every point of the board area is EMPTY and has as many pseudo-liberties as it
  has neighbours in the board area: four exactly when all its neighbours are in the area.
\<close>

theorem fresh_board_pseudo_liberties:
  assumes "sz \<in> {9, 13, 19}"
  shows "\<exists>b. GoBoard_init sz = Inr b \<and>
           (\<forall>p. in_board_area b p \<longrightarrow>
              point_color b p = Inr EMPTY \<and>
              pseudo_liberty b p = Inr (int (length (filter (in_board_area b) (neighbours p)))) \<and>
              ((\<forall>n \<in> set (neighbours p). in_board_area b n) \<longrightarrow> pseudo_liberty b p = Inr 4))"
proof -
  from assms have sz: "sz \<le> 19" by auto
  have bs: "board_size (fresh_board sz) = sz" by (simp add: fresh_board_def)
  have ia: "in_board_area (fresh_board sz) = in_area sz"
    using in_board_area_iff [of "fresh_board sz"] sz bs by (simp add: fun_eq_iff)
  have "point_color (fresh_board sz) p = Inr EMPTY \<and>
        pseudo_liberty (fresh_board sz) p
          = Inr (int (length (filter (in_board_area (fresh_board sz)) (neighbours p)))) \<and>
        ((\<forall>n \<in> set (neighbours p). in_board_area (fresh_board sz) n)
           \<longrightarrow> pseudo_liberty (fresh_board sz) p = Inr 4)"
    if "in_board_area (fresh_board sz) p" for p
  proof -
    from that have p: "in_area sz p" by (simp add: ia)
    have "length (filter (in_area sz) (neighbours p)) = 4"
      if "\<forall>n \<in> set (neighbours p). in_area sz n"
      using that by (simp add: neighbours_def)
    then show ?thesis using fresh_board_point [OF sz p] by (simp add: ia)
  qed
  then show ?thesis using GoBoard_init_fresh [OF sz] by blast
qed

theorem fresh_board_pseudo_liberties_witness:
  "(9::int) \<in> {9, 13, 19} \<and>
   (\<exists>b. GoBoard_init 9 = Inr b \<and> in_board_area b 22 \<and> point_color b 22 = Inr EMPTY \<and>
        pseudo_liberty b 22 = Inr 2 \<and>
        in_board_area b 44 \<and> (\<forall>n \<in> set (neighbours 44). in_board_area b n) \<and>
        pseudo_liberty b 44 = Inr 4)"
proof -
  have m: "(9::int) \<in> {9, 13, 19}" by simp
  from fresh_board_pseudo_liberties [OF m] obtain b where
    i: "GoBoard_init 9 = Inr b" and
    r: "\<And>p. in_board_area b p \<Longrightarrow>
          point_color b p = Inr EMPTY \<and>
          pseudo_liberty b p = Inr (int (length (filter (in_board_area b) (neighbours p)))) \<and>
          ((\<forall>n \<in> set (neighbours p). in_board_area b n) \<longrightarrow> pseudo_liberty b p = Inr 4)"
    by blast
  from i have b: "b = fresh_board 9" by (simp add: GoBoard_init_fresh)
  have a: "in_board_area b 22" "in_board_area b 44" "\<forall>n \<in> set (neighbours 44). in_board_area b n"
    unfolding b
    by (simp_all add: in_board_area_def point_to_2d_def fresh_board_def INVALID_POINT_def PASS_def
        VIRTUAL_BOARD_SIZE_def neighbours_def)
  have f: "filter (in_board_area b) (neighbours 22) = [43, 23]"
    unfolding b
    by (simp add: in_board_area_def point_to_2d_def fresh_board_def INVALID_POINT_def PASS_def
        VIRTUAL_BOARD_SIZE_def neighbours_def)
  from r [OF a(1)] f have "point_color b 22 = Inr EMPTY" "pseudo_liberty b 22 = Inr 2" by simp_all
  moreover from r [OF a(2)] a(3) have "pseudo_liberty b 44 = Inr 4" by blast
  ultimately show ?thesis using m i a by blast
qed

section \<open>Reading and writing the arrays\<close>

lemma board_update_vertex [simp]: "board (update_vertex b i f) = (board b)(i := f (board b i))"
  and chains_update_vertex [simp]: "chains (update_vertex b i f) = chains b"
  and size_update_vertex [simp]: "board_size (update_vertex b i f) = board_size b"
  and ko_update_vertex [simp]: "last_ko_point (update_vertex b i f) = last_ko_point b"
  and captures_update_vertex [simp]: "last_captures (update_vertex b i f) = last_captures b"
  and hash_update_vertex [simp]: "zobrist_hash (update_vertex b i f) = zobrist_hash b"
  by (simp_all add: update_vertex_def)

lemma board_update_chain [simp]: "board (update_chain b j f) = board b"
  and chains_update_chain [simp]: "chains (update_chain b j f) = (chains b)(j := f (chains b j))"
  and size_update_chain [simp]: "board_size (update_chain b j f) = board_size b"
  and ko_update_chain [simp]: "last_ko_point (update_chain b j f) = last_ko_point b"
  and captures_update_chain [simp]: "last_captures (update_chain b j f) = last_captures b"
  and hash_update_chain [simp]: "zobrist_hash (update_chain b j f) = zobrist_hash b"
  by (simp_all add: update_chain_def)

lemma point_color_grid [simp]: "on_grid p \<Longrightarrow> point_color b p = Inr (colr b p)"
  by (simp add: point_color_def)

lemma is_empty_grid [simp]: "on_grid p \<Longrightarrow> is_empty b p = Inr (colr b p = EMPTY)"
  by (simp add: is_empty_def)

lemma chain_head_of_grid [simp]: "on_grid p \<Longrightarrow> chain_head_of b p = Inr (head b p)"
  by (simp add: chain_head_of_def)

lemma chain_slot_grid [simp]:
  "on_grid p \<Longrightarrow> on_grid (head b p) \<Longrightarrow> chain_slot b p = Inr (head b p)"
  by (simp add: chain_slot_def)

lemma chain_of_grid [simp]:
  "on_grid p \<Longrightarrow> on_grid (head b p) \<Longrightarrow> chain_of b p = Inr (chains b (head b p))"
  by (simp add: chain_of_def)

lemma neighbours_simps:
  "neighbours p = [p + 21, p - 1, p + 1, p - 21]"
  by (simp add: neighbours_def VIRTUAL_BOARD_SIZE_def)

lemma not_self_neighbour [simp]: "p \<notin> set (neighbours p)"
  by (simp add: neighbours_simps)

lemma neighbour_sym: "n \<in> set (neighbours p) \<longleftrightarrow> p \<in> set (neighbours n)"
  by (auto simp: neighbours_simps)

section \<open>Paths\<close>

lemma path_Cons: "path f (x # xs) e \<longleftrightarrow> f x = hd (xs @ [e]) \<and> path f xs e"
  by (cases xs) simp_all

lemma path_append: "path f (xs @ ys) e \<longleftrightarrow> path f xs (hd (ys @ [e])) \<and> path f ys e"
  by (induction xs) (auto simp: path_Cons hd_append)

lemma path_cong: "\<forall>x \<in> set xs. f x = g x \<Longrightarrow> path f xs e = path g xs e"
  by (induction xs) (auto simp: path_Cons)

lemma path_rotate:
  assumes "path f (as @ q # bs) (hd (as @ q # bs))"
  shows "path f (q # bs @ as) q"
proof (cases as)
  case Nil
  with assms show ?thesis by simp
next
  case (Cons a as')
  from assms have "path f as (hd ((q # bs) @ [hd (as @ q # bs)])) \<and> path f (q # bs) (hd (as @ q # bs))"
    by (simp only: path_append)
  then have "path f (q # bs) (hd (as @ [q]))" and "path f as q"
    using Cons by simp_all
  then show ?thesis
    using path_append [of f "q # bs" as q] by simp
qed



section \<open>Closed forms of the loops over the neighbours\<close>

lemma bump_Nil [simp]: "bump hf g [] ch = ch"
  by (simp add: bump_def)

lemma bump_Cons: "bump hf g (n # ns) ch = bump hf g ns (ch(hf n := g (ch (hf n))))"
  by (simp add: bump_def)

lemma bump_other: "\<forall>n \<in> set ns. hf n \<noteq> j \<Longrightarrow> bump hf g ns ch j = ch j"
  by (induction ns arbitrary: ch) (simp_all add: bump_Cons)

lemma bump_once:
  "distinct ns \<Longrightarrow> m \<in> set ns \<Longrightarrow> \<forall>n \<in> set ns. n \<noteq> m \<longrightarrow> hf n \<noteq> hf m \<Longrightarrow>
   bump hf g ns ch (hf m) = g (ch (hf m))"
proof (induction ns arbitrary: ch)
  case Nil
  then show ?case by simp
next
  case (Cons n ns)
  show ?case
  proof (cases "n = m")
    case True
    with Cons.prems have "\<forall>k \<in> set ns. hf k \<noteq> hf m" by auto
    then show ?thesis using True by (simp add: bump_Cons bump_other)
  next
    case False
    with Cons.prems have "hf n \<noteq> hf m" "m \<in> set ns" "distinct ns"
      "\<forall>k \<in> set ns. k \<noteq> m \<longrightarrow> hf k \<noteq> hf m" by auto
    then show ?thesis using Cons.IH by (simp add: bump_Cons)
  qed
qed

lemma bump_num_stones:
  "(\<And>c. num_stones (g c) = num_stones c) \<Longrightarrow> num_stones (bump hf g ns ch j) = num_stones (ch j)"
  by (induction ns arbitrary: ch) (simp_all add: bump_Cons)

lemma add_empty_liberties_closed:
  "\<forall>n \<in> set ns. on_grid n \<Longrightarrow>
   add_empty_liberties b j ns =
     Inr (update_chain b j (\<lambda>ch. foldl add_liberty ch (filter (\<lambda>n. colr b n = EMPTY) ns)))"
proof (induction ns arbitrary: b)
  case Nil
  then show ?case by (simp add: update_chain_def)
next
  case (Cons n ns)
  then show ?case by (simp add: update_chain_def)
qed

lemma join_add_liberties_closed:
  "\<forall>n \<in> set ns. on_grid n \<Longrightarrow> on_grid lh \<Longrightarrow> on_grid (head b lh) \<Longrightarrow>
   join_add_liberties b lh ns =
     Inr (update_chain b (head b lh)
            (\<lambda>ch. foldl add_liberty ch (filter (\<lambda>n. colr b n = EMPTY) ns)))"
proof (induction ns arbitrary: b)
  case Nil
  then show ?case by (simp add: update_chain_def)
next
  case (Cons n ns)
  then show ?case by (simp add: update_chain_def)
qed

lemma init_new_chain_closed:
  assumes "on_grid p" and "\<forall>n \<in> set (neighbours p). on_grid n"
  shows "init_new_chain b p =
     Inr (update_chain (update_vertex b p (\<lambda>v. v\<lparr>chain_head := p, chain_next := p\<rparr>)) p
            (\<lambda>ch. foldl add_liberty ((reset ch)\<lparr>num_stones := 1\<rparr>)
                     (filter (\<lambda>n. colr b n = EMPTY) (neighbours p))))"
proof -
  let ?b1 = "update_vertex b p (\<lambda>v. v\<lparr>chain_head := p, chain_next := p\<rparr>)"
  let ?b2 = "update_chain ?b1 p (\<lambda>ch. (reset ch)\<lparr>num_stones := num_stones (reset ch) + 1\<rparr>)"
  have c: "(\<lambda>n. colr ?b2 n = EMPTY) = (\<lambda>n. colr b n = EMPTY)"
    by (auto simp: fun_eq_iff)
  have "init_new_chain b p = add_empty_liberties ?b2 p (neighbours p)"
    using assms by (simp add: init_new_chain_def Let_def)
  also have "\<dots> = Inr (update_chain ?b2 p
       (\<lambda>ch. foldl add_liberty ch (filter (\<lambda>n. colr ?b2 n = EMPTY) (neighbours p))))"
    using assms(2) by (rule add_empty_liberties_closed)
  also have "\<dots> = Inr (update_chain ?b1 p
            (\<lambda>ch. foldl add_liberty ((reset ch)\<lparr>num_stones := 1\<rparr>)
                     (filter (\<lambda>n. colr b n = EMPTY) (neighbours p))))"
    unfolding c by (simp add: update_chain_def reset_def)
  finally show ?thesis .
qed

lemma remove_liberties_closed:
  "\<forall>n \<in> set ns. on_grid n \<and> on_grid (head b n) \<Longrightarrow>
   remove_liberties b p ns =
     Inr (b\<lparr>chains := bump (head b) (\<lambda>ch. remove_liberty ch p) ns (chains b)\<rparr>)"
proof (induction ns arbitrary: b)
  case Nil
  then show ?case by simp
next
  case (Cons n ns)
  let ?b = "update_chain b (head b n) (\<lambda>ch. remove_liberty ch p)"
  have "remove_liberties b p (n # ns) = remove_liberties ?b p ns"
    using Cons.prems by simp
  also have "\<dots> = Inr (?b\<lparr>chains := bump (head ?b) (\<lambda>ch. remove_liberty ch p) ns (chains ?b)\<rparr>)"
    using Cons.prems by (intro Cons.IH) simp
  also have "\<dots> = Inr (b\<lparr>chains := bump (head b) (\<lambda>ch. remove_liberty ch p) (n # ns) (chains b)\<rparr>)"
    by (simp add: bump_Cons update_chain_def)
  finally show ?case .
qed

lemma restore_liberties_closed:
  "\<forall>n \<in> set ns. on_grid n \<and> on_grid (head b n) \<Longrightarrow>
   restore_liberties b h cur ns =
     Inr (b\<lparr>chains := bump (head b) (\<lambda>ch. add_liberty ch cur)
                         (filter (\<lambda>n. head b n \<noteq> h \<or> colr b n = EMPTY) ns) (chains b)\<rparr>)"
proof (induction ns arbitrary: b)
  case Nil
  then show ?case by simp
next
  case (Cons n ns)
  let ?g = "\<lambda>ch. add_liberty ch cur"
  let ?P = "\<lambda>b n. head b n \<noteq> h \<or> colr b n = EMPTY"
  show ?case
  proof (cases "?P b n")
    case True
    let ?b = "update_chain b (head b n) ?g"
    have "restore_liberties b h cur (n # ns) = restore_liberties ?b h cur ns"
      using Cons.prems True by auto
    also have "\<dots> = Inr (?b\<lparr>chains := bump (head ?b) ?g (filter (?P ?b) ns) (chains ?b)\<rparr>)"
      using Cons.prems by (intro Cons.IH) simp
    also have "\<dots> = Inr (b\<lparr>chains := bump (head b) ?g (filter (?P b) (n # ns)) (chains b)\<rparr>)"
      using True by (simp add: bump_Cons update_chain_def)
    finally show ?thesis .
  next
    case False
    have "restore_liberties b h cur (n # ns) = restore_liberties b h cur ns"
      using Cons.prems False by auto
    also have "\<dots> = Inr (b\<lparr>chains := bump (head b) ?g (filter (?P b) ns) (chains b)\<rparr>)"
      using Cons.prems by (intro Cons.IH) simp
    finally show ?thesis using False by simp
  qed
qed

lemma relabel_closed:
  "path (nx b) (cur # rest) n \<Longrightarrow> distinct (cur # rest) \<Longrightarrow> n \<notin> set rest \<Longrightarrow>
   \<forall>q \<in> set (cur # rest). on_grid q \<Longrightarrow>
   relabel b n lh cur =
     Some (Inr (b\<lparr>board := (\<lambda>q. if q \<in> set (cur # rest)
                                  then (board b q)\<lparr>chain_head := lh\<rparr> else board b q)\<rparr>))"
proof (induction rest arbitrary: b cur)
  case Nil
  then show ?case
    by (subst relabel.simps) (auto simp: Let_def update_vertex_def fun_eq_iff intro!: GoBoard.equality)
next
  case (Cons r rest)
  let ?b = "update_vertex b cur (\<lambda>v. v\<lparr>chain_head := lh\<rparr>)"
  from Cons.prems have nxt: "nx b cur = r" and p: "path (nx b) (r # rest) n" by simp_all
  from Cons.prems have rn: "r \<noteq> n" by simp
  have p': "path (nx ?b) (r # rest) n"
    using p Cons.prems(2) by (subst path_cong [where g = "nx b"]) auto
  have "relabel b n lh cur = relabel ?b n lh r"
    using Cons.prems nxt rn by (subst relabel.simps) (simp add: Let_def)
  also have "\<dots> = Some (Inr (?b\<lparr>board := (\<lambda>q. if q \<in> set (r # rest)
                                  then (board ?b q)\<lparr>chain_head := lh\<rparr> else board ?b q)\<rparr>))"
    using Cons.prems by (intro Cons.IH p') auto
  also have "\<dots> = Some (Inr (b\<lparr>board := (\<lambda>q. if q \<in> set (cur # r # rest)
                                  then (board b q)\<lparr>chain_head := lh\<rparr> else board b q)\<rparr>))"
    by (auto simp: update_vertex_def fun_eq_iff intro!: GoBoard.equality)
  finally show ?case .
qed

section \<open>Chains as lists\<close>

lemma chain_list_set:
  assumes "chain_list cl b h xs"
  shows "q \<in> set xs \<longleftrightarrow> on_grid q \<and> is_stone (cl q) \<and> head b q = h"
proof -
  from assms have "set xs = {q. on_grid q \<and> is_stone (cl q) \<and> head b q = h}"
    unfolding chain_list_def by blast
  then show ?thesis by simp
qed

lemma chain_list_color:
  assumes "chain_list cl b h xs" and "q \<in> set xs"
  shows "cl q = cl h"
proof -
  from assms(1) have "\<forall>q \<in> set xs. cl q = cl h"
    unfolding chain_list_def by blast
  with assms(2) show ?thesis by blast
qed

lemma chain_list_distinct: "chain_list cl b h xs \<Longrightarrow> distinct xs"
  unfolding chain_list_def by blast

lemma chain_list_has_head: "chain_list cl b h xs \<Longrightarrow> h \<in> set xs"
  unfolding chain_list_def by blast

lemma chain_list_path: "chain_list cl b h xs \<Longrightarrow> path (nx b) xs (hd xs)"
  unfolding chain_list_def by blast

lemma chain_list_count: "chain_list cl b h xs \<Longrightarrow> num_stones (chains b h) = int (length xs)"
  unfolding chain_list_def by blast

lemma chain_list_member:
  "chain_list cl b h xs \<Longrightarrow> q \<in> set xs \<Longrightarrow>
   on_grid q \<and> is_stone (cl q) \<and> head b q = h \<and> cl q = cl h"
  using chain_list_set [of cl b h xs q] chain_list_color [of cl b h xs q] by simp

lemma chain_list_head:
  "chain_list cl b h xs \<Longrightarrow> on_grid h \<and> is_stone (cl h) \<and> head b h = h \<and> h \<in> set xs"
  using chain_list_set [of cl b h xs h] chain_list_has_head [of cl b h xs] by simp

lemma chain_listI:
  assumes "distinct xs" "h \<in> set xs" "path (nx b) xs (hd xs)"
    "\<And>q. q \<in> set xs \<longleftrightarrow> on_grid q \<and> is_stone (cl q) \<and> head b q = h"
    "\<And>q. q \<in> set xs \<Longrightarrow> cl q = cl h"
    "num_stones (chains b h) = int (length xs)"
  shows "chain_list cl b h xs"
proof -
  have "set xs = {q. on_grid q \<and> is_stone (cl q) \<and> head b q = h}"
    using assms(4) by (intro set_eqI) simp
  moreover have "\<forall>q \<in> set xs. cl q = cl h" using assms(5) by blast
  ultimately show ?thesis
    unfolding chain_list_def using assms(1,2,3,6) by (intro conjI)
qed

lemma chain_list_rotate:
  assumes c: "chain_list cl b h xs" and q: "q \<in> set xs"
  shows "\<exists>ys. chain_list cl b h (q # ys) \<and> set (q # ys) = set xs \<and> length (q # ys) = length xs"
proof -
  from q obtain as bs where xs: "xs = as @ q # bs" by (auto dest: split_list)
  from chain_list_path [OF c] have "path (nx b) (as @ q # bs) (hd (as @ q # bs))"
    by (simp only: xs)
  then have p: "path (nx b) (q # bs @ as) q" by (rule path_rotate)
  have e: "set (q # bs @ as) = set xs" and l: "length (q # bs @ as) = length xs"
    and d: "distinct (q # bs @ as) = distinct xs"
    by (auto simp: xs)
  have "chain_list cl b h (q # bs @ as)"
  proof (rule chain_listI)
    show "distinct (q # bs @ as)" using chain_list_distinct [OF c] by (simp only: d)
    show "h \<in> set (q # bs @ as)" using chain_list_has_head [OF c] by (simp only: e)
    show "path (nx b) (q # bs @ as) (hd (q # bs @ as))" using p by simp
    show "x \<in> set (q # bs @ as) \<longleftrightarrow> on_grid x \<and> is_stone (cl x) \<and> head b x = h" for x
      using chain_list_set [OF c, of x] by (simp only: e)
    show "cl x = cl h" if "x \<in> set (q # bs @ as)" for x
      using chain_list_color [OF c, of x] that by (simp only: e)
    show "num_stones (chains b h) = int (length (q # bs @ as))"
      using chain_list_count [OF c] by (simp only: l)
  qed
  with e l show ?thesis by blast
qed

lemma chain_list_set_eq:
  assumes "chain_list cl b h xs" "chain_list cl b h ys"
  shows "set xs = set ys"
proof (rule set_eqI)
  fix q show "q \<in> set xs \<longleftrightarrow> q \<in> set ys"
    using chain_list_set [OF assms(1), of q] chain_list_set [OF assms(2), of q] by simp
qed

lemma struct_stone:
  assumes "struct_inv cl b" "on_grid q" "is_stone (cl q)"
  shows "\<exists>ys. chain_list cl b (head b q) (q # ys)"
proof -
  from assms(1,2) have "if is_stone (cl q) then \<exists>xs. chain_list cl b (head b q) xs
        else head b q = q \<and> nx b q = q"
    unfolding struct_inv_def by blast
  with assms(3) obtain xs where c: "chain_list cl b (head b q) xs" by auto
  with assms have "q \<in> set xs" by (simp add: chain_list_set)
  with c show ?thesis using chain_list_rotate by blast
qed

lemma struct_other:
  assumes "struct_inv cl b" "on_grid q" "\<not> is_stone (cl q)"
  shows "head b q = q \<and> nx b q = q"
proof -
  from assms(1,2) have "if is_stone (cl q) then \<exists>xs. chain_list cl b (head b q) xs
        else head b q = q \<and> nx b q = q"
    unfolding struct_inv_def by blast
  with assms(3) show ?thesis by simp
qed

lemma struct_invI:
  assumes "\<And>q. on_grid q \<Longrightarrow> is_stone (cl q) \<Longrightarrow> \<exists>xs. chain_list cl b (head b q) xs"
    and "\<And>q. on_grid q \<Longrightarrow> \<not> is_stone (cl q) \<Longrightarrow> head b q = q \<and> nx b q = q"
  shows "struct_inv cl b"
  unfolding struct_inv_def
proof (intro allI impI)
  fix q assume "on_grid q"
  then show "if is_stone (cl q) then \<exists>xs. chain_list cl b (head b q) xs
        else head b q = q \<and> nx b q = q"
    using assms [of q] by (cases "is_stone (cl q)") simp_all
qed

lemma struct_head_grid:
  assumes "struct_inv cl b" "on_grid q"
  shows "on_grid (head b q)"
proof (cases "is_stone (cl q)")
  case True
  from struct_stone [OF assms True] obtain ys where c: "chain_list cl b (head b q) (q # ys)" ..
  from chain_list_head [OF c] show ?thesis by simp
next
  case False
  with assms struct_other [OF assms] show ?thesis by simp
qed

lemma struct_head_head:
  assumes "struct_inv cl b" "on_grid q"
  shows "head b (head b q) = head b q"
proof (cases "is_stone (cl q)")
  case True
  from struct_stone [OF assms True] obtain ys where c: "chain_list cl b (head b q) (q # ys)" ..
  from chain_list_head [OF c] show ?thesis by simp
next
  case False
  with assms struct_other [OF assms] show ?thesis by simp
qed

lemma struct_head_color:
  assumes "struct_inv cl b" "on_grid q" "is_stone (cl q)"
  shows "cl (head b q) = cl q"
proof -
  from struct_stone [OF assms] obtain ys where c: "chain_list cl b (head b q) (q # ys)" ..
  from chain_list_color [OF c, of q] show ?thesis by simp
qed

lemma struct_head_stone:
  assumes "struct_inv cl b" "on_grid q"
  shows "is_stone (cl (head b q)) \<longleftrightarrow> is_stone (cl q)"
proof (cases "is_stone (cl q)")
  case True
  with struct_head_color [OF assms True] show ?thesis by simp
next
  case False
  with assms struct_other [OF assms] show ?thesis by simp
qed

lemma chain_list_cong:
  assumes h: "\<forall>q. on_grid q \<longrightarrow> head b' q = head b q"
    and n: "\<forall>q \<in> set xs. nx b' q = nx b q"
    and s: "num_stones (chains b' h) = num_stones (chains b h)"
    and c: "chain_list cl b h xs"
  shows "chain_list cl b' h xs"
proof (rule chain_listI)
  show "distinct xs" using chain_list_distinct [OF c] .
  show "h \<in> set xs" using chain_list_has_head [OF c] .
  have "path (nx b') xs (hd xs) = path (nx b) xs (hd xs)" using n by (rule path_cong)
  then show "path (nx b') xs (hd xs)" using chain_list_path [OF c] by simp
  show "q \<in> set xs \<longleftrightarrow> on_grid q \<and> is_stone (cl q) \<and> head b' q = h" for q
    using chain_list_set [OF c, of q] h by auto
  show "cl q = cl h" if "q \<in> set xs" for q using chain_list_color [OF c that] .
  show "num_stones (chains b' h) = int (length xs)" using chain_list_count [OF c] s by simp
qed

lemma struct_inv_cong:
  assumes v: "\<forall>q. on_grid q \<longrightarrow> head b' q = head b q \<and> nx b' q = nx b q"
    and k: "\<forall>q. on_grid q \<longrightarrow> num_stones (chains b' q) = num_stones (chains b q)"
    and s: "struct_inv cl b"
  shows "struct_inv cl b'"
proof (rule struct_invI)
  fix q assume g: "on_grid q" and st: "is_stone (cl q)"
  from struct_stone [OF s g st] obtain ys where c: "chain_list cl b (head b q) (q # ys)" ..
  have hg: "on_grid (head b q)" using chain_list_head [OF c] by simp
  have n: "\<forall>x \<in> set (q # ys). nx b' x = nx b x"
  proof
    fix x assume "x \<in> set (q # ys)"
    from chain_list_member [OF c this] have "on_grid x" by simp
    with v show "nx b' x = nx b x" by simp
  qed
  have h: "\<forall>x. on_grid x \<longrightarrow> head b' x = head b x" using v by simp
  have k': "num_stones (chains b' (head b q)) = num_stones (chains b (head b q))"
    using k hg by simp
  have "chain_list cl b' (head b q) (q # ys)"
    using h n k' c by (rule chain_list_cong)
  moreover have "head b' q = head b q" using v g by simp
  ultimately show "\<exists>xs. chain_list cl b' (head b' q) xs" by auto
next
  fix q assume g: "on_grid q" and st: "\<not> is_stone (cl q)"
  from struct_other [OF s g st] v g show "head b' q = q \<and> nx b' q = q" by simp
qed

section \<open>Creating, extending and merging chains\<close>

lemma num_stones_add_liberty [simp]: "num_stones (add_liberty ch p) = num_stones ch"
  by (simp add: add_liberty_def)

lemma num_stones_remove_liberty [simp]: "num_stones (remove_liberty ch p) = num_stones ch"
  by (simp add: remove_liberty_def)

lemma num_stones_foldl_add [simp]: "num_stones (foldl add_liberty ch xs) = num_stones ch"
  by (induction xs arbitrary: ch) simp_all

lemma init_new_chain_new_chain_at:
  "on_grid p \<Longrightarrow> \<forall>n \<in> set (neighbours p). on_grid n \<Longrightarrow>
   init_new_chain b p = Inr (new_chain_at b p)"
  unfolding new_chain_at_def by (rule init_new_chain_closed)

lemma chain_list_transfer:
  assumes c: "chain_list cl b h xs"
    and m: "\<And>q. on_grid q \<Longrightarrow>
              (is_stone (cl' q) \<and> head b' q = h) = (is_stone (cl q) \<and> head b q = h)"
    and n: "\<And>q. q \<in> set xs \<Longrightarrow> nx b' q = nx b q \<and> cl' q = cl q"
    and s: "num_stones (chains b' h) = num_stones (chains b h)"
  shows "chain_list cl' b' h xs"
proof (rule chain_listI)
  show "distinct xs" using chain_list_distinct [OF c] .
  show hx: "h \<in> set xs" using chain_list_has_head [OF c] .
  have "path (nx b') xs (hd xs) = path (nx b) xs (hd xs)"
    using n by (intro path_cong) simp
  then show "path (nx b') xs (hd xs)" using chain_list_path [OF c] by simp
  show "q \<in> set xs \<longleftrightarrow> on_grid q \<and> is_stone (cl' q) \<and> head b' q = h" for q
    using chain_list_set [OF c, of q] m [of q] by auto
  show "cl' q = cl' h" if "q \<in> set xs" for q
    using chain_list_color [OF c that] n [OF that] n [OF hx] by simp
  show "num_stones (chains b' h) = int (length xs)" using chain_list_count [OF c] s by simp
qed

lemma struct_new_chain:
  assumes s: "struct_inv cl b" and g: "on_grid p" and e: "\<not> is_stone (cl p)" and c: "is_stone c"
  shows "struct_inv (cl(p := c)) (new_chain_at b p)"
proof (rule struct_invI)
  let ?b = "new_chain_at b p"
  have hd': "head ?b q = (if q = p then p else head b q)" for q
    by (simp add: new_chain_at_def)
  have nx': "nx ?b q = (if q = p then p else nx b q)" for q
    by (simp add: new_chain_at_def)
  have ns': "num_stones (chains ?b q) = (if q = p then 1 else num_stones (chains b q))" for q
    by (simp add: new_chain_at_def)
  have nop: "head b x \<noteq> p" if "on_grid x" "is_stone (cl x)" for x
    using struct_head_stone [OF s that(1)] that(2) e by auto
  {
    fix q assume q: "on_grid q" and st: "is_stone ((cl(p := c)) q)"
    show "\<exists>xs. chain_list (cl(p := c)) ?b (head ?b q) xs"
    proof (cases "q = p")
      case True
      have "chain_list (cl(p := c)) ?b p [p]"
      proof (rule chain_listI)
        show "distinct [p]" "p \<in> set [p]" by simp_all
        show "path (nx ?b) [p] (hd [p])" by (simp add: nx')
        show "x \<in> set [p] \<longleftrightarrow> on_grid x \<and> is_stone ((cl(p := c)) x) \<and> head ?b x = p" for x
          using g c nop [of x] by (auto simp: hd')
        show "(cl(p := c)) x = (cl(p := c)) p" if "x \<in> set [p]" for x using that by simp
        show "num_stones (chains ?b p) = int (length [p])" by (simp add: ns')
      qed
      then show ?thesis using True by (auto simp: hd')
    next
      case False
      with st have st': "is_stone (cl q)" by simp
      from struct_stone [OF s q st'] obtain ys where cl: "chain_list cl b (head b q) (q # ys)" ..
      have hp: "head b q \<noteq> p" using nop [OF q st'] .
      have pn: "p \<notin> set (q # ys)"
        using chain_list_member [OF cl, of p] e by auto
      have "chain_list (cl(p := c)) ?b (head b q) (q # ys)"
      proof (rule chain_list_transfer [OF cl])
        show "(is_stone ((cl(p := c)) x) \<and> head ?b x = head b q)
              = (is_stone (cl x) \<and> head b x = head b q)" if "on_grid x" for x
          using hp e nop [of x] that by (auto simp: hd')
        show "nx ?b x = nx b x \<and> (cl(p := c)) x = cl x" if "x \<in> set (q # ys)" for x
          using that pn by (auto simp: nx')
        show "num_stones (chains ?b (head b q)) = num_stones (chains b (head b q))"
          using hp by (simp add: ns')
      qed
      then show ?thesis using False by (auto simp: hd')
    qed
  }
  {
    fix q assume q: "on_grid q" and st: "\<not> is_stone ((cl(p := c)) q)"
    then have "q \<noteq> p" using c by auto
    with st struct_other [OF s q] show "head ?b q = q \<and> nx ?b q = q"
      by (simp add: hd' nx')
  }
qed

lemma insert_stone_inserted:
  assumes "on_grid p" "on_grid lh" "p \<noteq> lh" "head b lh = lh"
    and "\<forall>n \<in> set (neighbours p). on_grid n"
  shows "insert_stone b p lh = Inr (inserted b p lh)"
proof -
  let ?b1 = "update_vertex b p (\<lambda>v. v\<lparr>chain_next := chain_next (board b lh)\<rparr>)"
  let ?b2 = "update_vertex ?b1 lh (\<lambda>v. v\<lparr>chain_next := p\<rparr>)"
  let ?b3 = "update_vertex ?b2 p (\<lambda>v. v\<lparr>chain_head := lh\<rparr>)"
  let ?b4 = "update_chain ?b3 lh (\<lambda>ch. ch\<lparr>num_stones := num_stones ch + 1\<rparr>)"
  have h3: "head ?b3 lh = lh" using assms(3,4) by simp
  have h4: "head ?b4 lh = lh" using assms(3,4) by simp
  have c4: "(\<lambda>n. colr ?b4 n = EMPTY) = (\<lambda>n. colr b n = EMPTY)"
    by (auto simp: fun_eq_iff)
  have "insert_stone b p lh = join_add_liberties ?b4 lh (neighbours p)"
    using assms(1,2) h3 by (simp add: insert_stone_def Let_def)
  also have "\<dots> = Inr (update_chain ?b4 (head ?b4 lh)
            (\<lambda>ch. foldl add_liberty ch (filter (\<lambda>n. colr ?b4 n = EMPTY) (neighbours p))))"
    using assms(5) assms(2) h4 by (intro join_add_liberties_closed) simp_all
  also have "\<dots> = Inr (inserted b p lh)"
    unfolding c4 h4 using assms(3)
    by (auto simp: inserted_def update_chain_def update_vertex_def fun_eq_iff
        intro!: GoBoard.equality)
  finally show ?thesis .
qed

lemma struct_inserted:
  assumes s: "struct_inv cl b" and g: "on_grid p" and e: "\<not> is_stone (cl p)"
    and gl: "on_grid lh" and sl: "is_stone (cl lh)" and hl: "head b lh = lh"
  shows "struct_inv (cl(p := cl lh)) (inserted b p lh)"
proof (rule struct_invI)
  let ?b = "inserted b p lh"
  let ?cl = "cl(p := cl lh)"
  have pl: "p \<noteq> lh" using e sl by auto
  have hd': "head ?b q = (if q = p then lh else head b q)" for q
    using pl by (simp add: inserted_def)
  have nx': "nx ?b q = (if q = lh then p else if q = p then nx b lh else nx b q)" for q
    using pl by (simp add: inserted_def)
  have ns': "num_stones (chains ?b q)
      = (if q = lh then num_stones (chains b lh) + 1 else num_stones (chains b q))" for q
    by (simp add: inserted_def)
  from struct_stone [OF s gl sl] hl obtain xs where cl: "chain_list cl b lh (lh # xs)" by auto
  have pn: "p \<notin> set (lh # xs)" using chain_list_member [OF cl, of p] e by auto
  have lx: "lh \<notin> set xs" using chain_list_distinct [OF cl] by simp
  have new: "chain_list ?cl ?b lh (lh # p # xs)"
  proof (rule chain_listI)
    show "distinct (lh # p # xs)" using chain_list_distinct [OF cl] pn by auto
    show "lh \<in> set (lh # p # xs)" by simp
    from chain_list_path [OF cl] have "nx b lh = hd (xs @ [lh])" and px: "path (nx b) xs lh"
      by (simp_all add: path_Cons)
    moreover have "path (nx ?b) xs lh = path (nx b) xs lh"
      using pn lx by (intro path_cong) (auto simp: nx')
    ultimately show "path (nx ?b) (lh # p # xs) (hd (lh # p # xs))"
      using pl by (simp add: path_Cons nx')
    show "x \<in> set (lh # p # xs) \<longleftrightarrow> on_grid x \<and> is_stone (?cl x) \<and> head ?b x = lh" for x
      using chain_list_set [OF cl, of x] g sl e by (auto simp: hd')
    show "?cl x = ?cl lh" if "x \<in> set (lh # p # xs)" for x
      using chain_list_color [OF cl, of x] that pl by auto
    show "num_stones (chains ?b lh) = int (length (lh # p # xs))"
      using chain_list_count [OF cl] by (simp add: ns')
  qed
  {
    fix q assume q: "on_grid q" and st: "is_stone (?cl q)"
    show "\<exists>xs. chain_list ?cl ?b (head ?b q) xs"
    proof (cases "head ?b q = lh")
      case True
      with new show ?thesis by auto
    next
      case False
      then have qp: "q \<noteq> p" and hq: "head b q \<noteq> lh" by (auto simp: hd' split: if_splits)
      with st have st': "is_stone (cl q)" by simp
      from struct_stone [OF s q st'] obtain ys where c: "chain_list cl b (head b q) (q # ys)" ..
      have pn': "p \<notin> set (q # ys)" using chain_list_member [OF c, of p] e by auto
      have ln': "lh \<notin> set (q # ys)" using chain_list_member [OF c, of lh] hl hq by auto
      have "chain_list ?cl ?b (head b q) (q # ys)"
      proof (rule chain_list_transfer [OF c])
        show "(is_stone (?cl x) \<and> head ?b x = head b q)
              = (is_stone (cl x) \<and> head b x = head b q)" if "on_grid x" for x
          using hq e by (auto simp: hd')
        show "nx ?b x = nx b x \<and> ?cl x = cl x" if "x \<in> set (q # ys)" for x
          using that pn' ln' by (auto simp: nx')
        show "num_stones (chains ?b (head b q)) = num_stones (chains b (head b q))"
          using hq by (simp add: ns')
      qed
      then show ?thesis using qp by (auto simp: hd')
    qed
  }
  {
    fix q assume q: "on_grid q" and st: "\<not> is_stone (?cl q)"
    then have "q \<noteq> p" "q \<noteq> lh" using sl by auto
    with st struct_other [OF s q] show "head ?b q = q \<and> nx ?b q = q"
      by (simp add: hd' nx')
  }
qed

lemma merged_fields [simp]:
  "colr (merged b lh n) q = colr b q"
  "board_size (merged b lh n) = board_size b"
  "last_ko_point (merged b lh n) = last_ko_point b"
  "last_captures (merged b lh n) = last_captures b"
  "zobrist_hash (merged b lh n) = zobrist_hash b"
  "chains (merged b lh n) = (chains b)(lh := merge (chains b lh) (chains b (head b n)))"
  by (simp_all add: merged_def)

lemma join_one_merged:
  assumes s: "struct_inv (colr b) b" and gn: "on_grid n" and sn: "is_stone (colr b n)"
    and gl: "on_grid lh" and hl: "head b lh = lh" and ne: "head b n \<noteq> lh"
  shows "join_one b lh n = Some (Inr (merged b lh n))"
proof -
  from struct_stone [OF s gn sn] obtain ys where c: "chain_list (colr b) b (head b n) (n # ys)" ..
  have hg: "on_grid (head b n)" using struct_head_grid [OF s gn] .
  let ?b1 = "update_chain b lh (\<lambda>ch. merge ch (chains b (head b n)))"
  let ?b2 = "?b1\<lparr>board := (\<lambda>q. if q \<in> set (n # ys)
                                  then (board ?b1 q)\<lparr>chain_head := lh\<rparr> else board ?b1 q)\<rparr>"
  have m: "bindE (chain_slot b lh) (\<lambda>j1. bindE (chain_slot b n) (\<lambda>j2.
             Inr (update_chain b j1 (\<lambda>ch. merge ch (chains b j2))))) = Inr ?b1"
    using gn gl hl hg by simp
  have g: "\<forall>q \<in> set (n # ys). on_grid q"
    using chain_list_member [OF c] by blast
  have r: "relabel ?b1 n lh n = Some (Inr ?b2)"
  proof (rule relabel_closed)
    show "path (nx ?b1) (n # ys) n" using chain_list_path [OF c] by simp
    show "distinct (n # ys)" using chain_list_distinct [OF c] .
    then show "n \<notin> set ys" by simp
    show "\<forall>q \<in> set (n # ys). on_grid q" using g .
  qed
  have ln: "lh \<notin> set (n # ys)" using chain_list_member [OF c, of lh] hl ne by auto
  have sp: "splice ?b2 lh n = Inr (merged b lh n)"
  proof -
    have "splice ?b2 lh n =
        Inr (update_vertex (update_vertex ?b2 lh (\<lambda>v. v\<lparr>chain_next := nx ?b2 n\<rparr>)) n
               (\<lambda>v. v\<lparr>chain_next := nx ?b2 lh\<rparr>))"
      using gn gl by (simp add: splice_def Let_def)
    also have "\<dots> = Inr (merged b lh n)"
    proof -
      have "board (update_vertex (update_vertex ?b2 lh (\<lambda>v. v\<lparr>chain_next := nx ?b2 n\<rparr>)) n
               (\<lambda>v. v\<lparr>chain_next := nx ?b2 lh\<rparr>)) q = board (merged b lh n) q" for q
        using ln chain_list_set [OF c, of q] by (auto simp: merged_def)
      then show ?thesis
        by (auto simp: merged_def update_vertex_def update_chain_def fun_eq_iff
            intro!: GoBoard.equality)
    qed
    finally show ?thesis .
  qed
  show ?thesis
    using gn gl hl hg ne r sp by (simp add: join_one_def)
qed

lemma struct_merged:
  assumes s: "struct_inv (colr b) b" and gn: "on_grid n" and sn: "is_stone (colr b n)"
    and gl: "on_grid lh" and hl: "head b lh = lh" and ne: "head b n \<noteq> lh"
    and co: "colr b n = colr b lh"
  shows "struct_inv (colr b) (merged b lh n)"
proof (rule struct_invI)
  let ?b = "merged b lh n"
  let ?cl = "colr b"
  have sl: "is_stone (?cl lh)" using sn co by simp
  from struct_stone [OF s gn sn] obtain ys where cn: "chain_list ?cl b (head b n) (n # ys)" ..
  from struct_stone [OF s gl sl] hl obtain xs where cl: "chain_list ?cl b lh (lh # xs)" by auto
  have inS: "q \<in> set (n # ys) \<longleftrightarrow> on_grid q \<and> is_stone (?cl q) \<and> head b q = head b n" for q
    using chain_list_set [OF cn, of q] .
  have inL: "q \<in> set (lh # xs) \<longleftrightarrow> on_grid q \<and> is_stone (?cl q) \<and> head b q = lh" for q
    using chain_list_set [OF cl, of q] .
  have ln: "lh \<notin> set (n # ys)" using inS [of lh] hl ne by auto
  have nl: "n \<notin> set (lh # xs)" using inL [of n] ne by auto
  have disj: "set (n # ys) \<inter> set (lh # xs) = {}"
  proof (rule ccontr)
    assume "set (n # ys) \<inter> set (lh # xs) \<noteq> {}"
    then obtain x where "x \<in> set (n # ys)" "x \<in> set (lh # xs)" by blast
    then have "head b x = head b n" "head b x = lh" using inS [of x] inL [of x] by simp_all
    with ne show False by simp
  qed
  have hd': "head ?b q = (if q \<in> set (n # ys) then lh else head b q)" for q
    using inS [of q] hl gn sn by (auto simp: merged_def)
  have nx': "nx ?b q = (if q = lh then nx b n else if q = n then nx b lh else nx b q)" for q
    by (auto simp: merged_def)
  have ns': "num_stones (chains ?b q)
       = (if q = lh then num_stones (chains b lh) + num_stones (chains b (head b n))
          else num_stones (chains b q))" for q
    by (simp add: merge_def)
  have new: "chain_list ?cl ?b lh (lh # ys @ n # xs)"
  proof (rule chain_listI)
    show "distinct (lh # ys @ n # xs)"
      using chain_list_distinct [OF cn] chain_list_distinct [OF cl] disj by auto
    show "lh \<in> set (lh # ys @ n # xs)" by simp
    from chain_list_path [OF cn] have n1: "nx b n = hd (ys @ [n])" and py: "path (nx b) ys n"
      by (simp_all add: path_Cons)
    from chain_list_path [OF cl] have l1: "nx b lh = hd (xs @ [lh])" and px: "path (nx b) xs lh"
      by (simp_all add: path_Cons)
    have py': "path (nx ?b) ys n = path (nx b) ys n"
      using ln chain_list_distinct [OF cn] by (intro path_cong) (auto simp: nx')
    have px': "path (nx ?b) xs lh = path (nx b) xs lh"
      using nl chain_list_distinct [OF cl] by (intro path_cong) (auto simp: nx')
    have "path (nx ?b) (n # xs) lh" using l1 px px' ln by (simp add: path_Cons nx')
    moreover have "path (nx ?b) ys (hd ((n # xs) @ [lh]))" using py py' by simp
    ultimately have "path (nx ?b) (ys @ n # xs) lh" by (simp only: path_append)
    moreover have "nx ?b lh = hd ((ys @ n # xs) @ [lh])"
      using n1 by (cases ys) (simp_all add: nx')
    ultimately show "path (nx ?b) (lh # ys @ n # xs) (hd (lh # ys @ n # xs))"
      by (simp only: path_Cons list.sel)
    show "x \<in> set (lh # ys @ n # xs) \<longleftrightarrow> on_grid x \<and> is_stone (?cl x) \<and> head ?b x = lh" for x
      using inS [of x] inL [of x] by (auto simp: hd')
    show "?cl x = ?cl lh" if "x \<in> set (lh # ys @ n # xs)" for x
    proof -
      from that have "x \<in> set (lh # xs) \<or> x \<in> set (n # ys)" by auto
      then show ?thesis
      proof
        assume "x \<in> set (lh # xs)"
        from chain_list_color [OF cl this] show ?thesis by simp
      next
        assume x: "x \<in> set (n # ys)"
        have "?cl x = ?cl (head b n)" using chain_list_color [OF cn x] .
        moreover have "?cl n = ?cl (head b n)" using chain_list_color [OF cn, of n] by simp
        ultimately show ?thesis using co by simp
      qed
    qed
    show "num_stones (chains ?b lh) = int (length (lh # ys @ n # xs))"
      using chain_list_count [OF cn] chain_list_count [OF cl] by (simp add: merge_def)
  qed
  {
    fix q assume q: "on_grid q" and st': "is_stone (?cl q)"
    show "\<exists>zs. chain_list ?cl ?b (head ?b q) zs"
    proof (cases "head ?b q = lh")
      case True
      with new show ?thesis by auto
    next
      case False
      then have qn: "q \<notin> set (n # ys)" and hq: "head b q \<noteq> lh"
        by (auto simp: hd' split: if_splits)
      then have hq2: "head b q \<noteq> head b n" using inS [of q] q st' by auto
      from struct_stone [OF s q st'] obtain zs where c: "chain_list ?cl b (head b q) (q # zs)" ..
      have l': "lh \<notin> set (q # zs)" using chain_list_member [OF c, of lh] hl hq by auto
      have n': "n \<notin> set (q # zs)" using chain_list_member [OF c, of n] hq2 by auto
      have "chain_list ?cl ?b (head b q) (q # zs)"
      proof (rule chain_list_transfer [OF c])
        show "(is_stone (?cl x) \<and> head ?b x = head b q)
              = (is_stone (?cl x) \<and> head b x = head b q)" if "on_grid x" for x
          using hq hq2 inS [of x] by (auto simp: hd')
        show "nx ?b x = nx b x \<and> ?cl x = ?cl x" if "x \<in> set (q # zs)" for x
          using that l' n' by (auto simp: nx')
        show "num_stones (chains ?b (head b q)) = num_stones (chains b (head b q))"
          using hq by (simp add: ns')
      qed
      then show ?thesis using qn by (auto simp: hd')
    qed
  }
  {
    fix q assume q: "on_grid q" and st': "\<not> is_stone (?cl q)"
    then have "q \<noteq> n" "q \<noteq> lh" "q \<notin> set (n # ys)" using sn sl inS [of q] by auto
    with struct_other [OF s q st'] show "head ?b q = q \<and> nx ?b q = q"
      by (simp add: hd' nx')
  }
qed

section \<open>Joining the chains around a new stone\<close>

lemma join_frame_refl: "join_frame b b"
  by (simp add: join_frame_def)

lemma join_frame_trans: "join_frame b b1 \<Longrightarrow> join_frame b1 b2 \<Longrightarrow> join_frame b b2"
  by (simp add: join_frame_def)

lemma struct_num_stones_pos:
  assumes "struct_inv cl b" "on_grid q" "is_stone (cl q)"
  shows "0 < num_stones (chains b (head b q))"
proof -
  from struct_stone [OF assms] obtain ys where c: "chain_list cl b (head b q) (q # ys)" ..
  from chain_list_count [OF c] show ?thesis by simp
qed

lemma largest_chain_result:
  assumes s: "struct_inv (colr b) b" and c: "is_stone c"
  shows "\<forall>n \<in> set ns. on_grid n \<Longrightarrow> 0 \<le> s0 \<Longrightarrow>
    \<exists>lh ls. largest_chain b c ns (h0, s0) = Inr (lh, ls) \<and> s0 \<le> ls \<and>
      ((lh, ls) = (h0, s0) \<or> (\<exists>m \<in> set ns. colr b m = c \<and> lh = head b m)) \<and>
      ((\<exists>m \<in> set ns. colr b m = c) \<longrightarrow> 0 < ls)"
proof (induction ns arbitrary: h0 s0)
  case Nil
  then show ?case by simp
next
  case (Cons n ns)
  then have gn: "on_grid n" and gns: "\<forall>n \<in> set ns. on_grid n" by simp_all
  have hg: "on_grid (head b n)" using struct_head_grid [OF s gn] .
  show ?case
  proof (cases "colr b n = c")
    case False
    from Cons.IH [OF gns Cons.prems(2), of h0] obtain lh ls where
      r: "largest_chain b c ns (h0, s0) = Inr (lh, ls)" "s0 \<le> ls"
        "(lh, ls) = (h0, s0) \<or> (\<exists>m \<in> set ns. colr b m = c \<and> lh = head b m)"
        "(\<exists>m \<in> set ns. colr b m = c) \<longrightarrow> 0 < ls" by blast
    have "largest_chain b c (n # ns) (h0, s0) = Inr (lh, ls)"
      using False gn r(1) by simp
    with r False show ?thesis by auto
  next
    case True
    then have st: "is_stone (colr b n)" using c by simp
    have pos: "0 < num_stones (chains b (head b n))" using struct_num_stones_pos [OF s gn st] .
    show ?thesis
    proof (cases "num_stones (chains b (head b n)) > s0")
      case gt: True
      let ?s = "num_stones (chains b (head b n))"
      have "0 \<le> ?s" using pos by simp
      from Cons.IH [OF gns this, of "head b n"] obtain lh ls where
        r: "largest_chain b c ns (head b n, ?s) = Inr (lh, ls)" "?s \<le> ls"
          "(lh, ls) = (head b n, ?s) \<or> (\<exists>m \<in> set ns. colr b m = c \<and> lh = head b m)" by blast
      have "largest_chain b c (n # ns) (h0, s0) = Inr (lh, ls)"
        using True gt gn hg r(1) by simp
      moreover have "s0 \<le> ls" "0 < ls" using r(2) gt pos by simp_all
      moreover have "\<exists>m \<in> set (n # ns). colr b m = c \<and> lh = head b m"
        using r(3) True by auto
      ultimately show ?thesis by blast
    next
      case le: False
      from Cons.IH [OF gns Cons.prems(2), of h0] obtain lh ls where
        r: "largest_chain b c ns (h0, s0) = Inr (lh, ls)" "s0 \<le> ls"
          "(lh, ls) = (h0, s0) \<or> (\<exists>m \<in> set ns. colr b m = c \<and> lh = head b m)" by blast
      have "largest_chain b c (n # ns) (h0, s0) = Inr (lh, ls)"
        using True le gn hg r(1) by simp
      moreover have "0 < ls" using le pos r(2) by simp
      moreover have "(lh, ls) = (h0, s0) \<or> (\<exists>m \<in> set (n # ns). colr b m = c \<and> lh = head b m)"
        using r(3) by auto
      ultimately show ?thesis using r(2) by blast
    qed
  qed
qed

lemma merged_head_lh: "head b lh = lh \<Longrightarrow> head (merged b lh n) lh = lh"
  by (simp add: merged_def)

lemma join_frame_merged: "is_stone (colr b lh) \<Longrightarrow> join_frame b (merged b lh n)"
  by (auto simp: join_frame_def)

lemma join_one_same: "on_grid n \<Longrightarrow> head b n = lh \<Longrightarrow> join_one b lh n = Some (Inr b)"
  by (simp add: join_one_def)

lemma join_neighbours_ok:
  assumes c: "is_stone c" and gl: "on_grid lh"
  shows "struct_inv (colr b) b \<Longrightarrow> \<forall>n \<in> set ns. on_grid n \<Longrightarrow> colr b lh = c \<Longrightarrow>
    head b lh = lh \<Longrightarrow>
    \<exists>b'. join_neighbours b c lh ns = Some (Inr b') \<and> struct_inv (colr b') b' \<and>
         join_frame b b' \<and> head b' lh = lh"
proof (induction ns arbitrary: b)
  case Nil
  then show ?case by (simp add: join_frame_refl)
next
  case (Cons n ns)
  then have gn: "on_grid n" and gns: "\<forall>n \<in> set ns. on_grid n" by simp_all
  note s = Cons.prems(1) and cl = Cons.prems(3) and hl = Cons.prems(4)
  show ?case
  proof (cases "colr b n = c")
    case False
    from Cons.IH [OF s gns cl hl] obtain b' where
      r: "join_neighbours b c lh ns = Some (Inr b')" "struct_inv (colr b') b'"
        "join_frame b b'" "head b' lh = lh" by blast
    have "join_neighbours b c lh (n # ns) = Some (Inr b')" using False gn r(1) by simp
    with r show ?thesis by blast
  next
    case True
    show ?thesis
    proof (cases "head b n = lh")
      case same: True
      from Cons.IH [OF s gns cl hl] obtain b' where
        r: "join_neighbours b c lh ns = Some (Inr b')" "struct_inv (colr b') b'"
          "join_frame b b'" "head b' lh = lh" by blast
      have "join_neighbours b c lh (n # ns) = Some (Inr b')"
        using True gn r(1) join_one_same [OF gn same] by simp
      with r show ?thesis by blast
    next
      case diff: False
      let ?m = "merged b lh n"
      have sn: "is_stone (colr b n)" using True c by simp
      have j: "join_one b lh n = Some (Inr ?m)"
        using s gn sn gl hl diff by (rule join_one_merged)
      have sm: "struct_inv (colr ?m) ?m"
      proof -
        have "struct_inv (colr b) ?m"
          using s gn sn gl hl diff by (rule struct_merged) (simp add: True cl)
        moreover have "colr ?m = colr b" by (simp add: fun_eq_iff)
        ultimately show ?thesis by simp
      qed
      have fm: "join_frame b ?m" using c cl by (intro join_frame_merged) simp
      have "colr ?m lh = c" using cl by simp
      from Cons.IH [OF sm gns this merged_head_lh [OF hl]] obtain b' where
        r: "join_neighbours ?m c lh ns = Some (Inr b')" "struct_inv (colr b') b'"
          "join_frame ?m b'" "head b' lh = lh" by blast
      have "join_neighbours b c lh (n # ns) = Some (Inr b')"
        using True gn r(1) j by simp
      moreover have "join_frame b b'" using fm r(3) by (rule join_frame_trans)
      ultimately show ?thesis using r by blast
    qed
  qed
qed

section \<open>The hash of a color array\<close>

lemma zsum_same: "\<forall>q \<in> set xs. f' q = f q \<Longrightarrow> zsum f' xs = zsum f xs"
  by (induction xs) simp_all

lemma zsum_update:
  "distinct xs \<Longrightarrow> p \<in> set xs \<Longrightarrow> \<forall>q. q \<noteq> p \<longrightarrow> f' q = f q \<Longrightarrow>
   zsum f' xs = zsum f xs XOR f p XOR f' p"
proof (induction xs)
  case Nil
  then show ?case by simp
next
  case (Cons x xs)
  show ?case
  proof (cases "x = p")
    case True
    with Cons.prems have "\<forall>q \<in> set xs. f' q = f q" by auto
    then have "zsum f' xs = zsum f xs" by (rule zsum_same)
    then show ?thesis using True by (simp add: ac_simps xor.left_commute)
  next
    case False
    with Cons.prems have "zsum f' xs = zsum f xs XOR f p XOR f' p" "f' x = f x"
      using Cons.IH by auto
    then show ?thesis by (simp add: ac_simps)
  qed
qed

lemma distinct_grid: "distinct grid"
  by (simp add: grid_def)

lemma set_grid: "p \<in> set grid \<longleftrightarrow> on_grid p"
  by (auto simp: grid_def on_grid_def)

lemma hash_of_update:
  assumes "on_grid p"
  shows "hash_of Z (cl(p := c)) = hash_of Z cl XOR zvalue Z cl p XOR zvalue Z (cl(p := c)) p"
  unfolding hash_of_def
  using distinct_grid assms by (intro zsum_update) (simp_all add: set_grid zvalue_def)


section \<open>The join around a new stone\<close>

lemma tracks_new_chain:
  "tracks (foldl add_liberty ((reset ch)\<lparr>num_stones := 1\<rparr>) xs) (mset xs)"
proof -
  have "tracks ((reset ch)\<lparr>num_stones := 1\<rparr>) {#}" by (simp add: tracks_def reset_def)
  from tracks_foldl [OF this, of xs] show ?thesis by simp
qed

lemma join_chains_around_ok:
  assumes s: "struct_inv (colr b) b" and e: "emp_inv (colr b) (colr b) b"
    and gp: "on_grid p" and gn: "\<forall>n \<in> set (neighbours p). on_grid n"
    and ep: "colr b p = EMPTY" and c: "is_stone c"
  shows "\<exists>b1. join_chains_around b p c = Some (Inr b1) \<and>
           struct_inv ((colr b)(p := c)) b1 \<and> emp_inv (colr b) (colr b) b1 \<and>
           (\<forall>q. colr b1 q = colr b q) \<and> board_size b1 = board_size b \<and>
           last_ko_point b1 = last_ko_point b \<and> last_captures b1 = last_captures b \<and>
           zobrist_hash b1 = zobrist_hash b"
proof -
  have np: "\<not> is_stone (colr b p)" using ep by (simp add: is_stone_def)
  from largest_chain_result [OF s c gn, of 0 INVALID_POINT] obtain lh ls where
    l: "largest_chain b c (neighbours p) (INVALID_POINT, 0) = Inr (lh, ls)"
    and alt: "(lh, ls) = (INVALID_POINT, 0) \<or> (\<exists>m \<in> set (neighbours p). colr b m = c \<and> lh = head b m)"
    and pos: "(\<exists>m \<in> set (neighbours p). colr b m = c) \<longrightarrow> 0 < ls"
    by auto
  show ?thesis
  proof (cases "ls = 0")
    case True
    let ?b = "new_chain_at b p"
    have j: "join_chains_around b p c = Some (Inr ?b)"
      using l True gp gn by (simp add: join_chains_around_def init_new_chain_new_chain_at)
    have st: "struct_inv ((colr b)(p := c)) ?b" using s gp np c by (rule struct_new_chain)
    have col: "colr ?b q = colr b q" for q by (simp add: new_chain_at_def)
    have em: "emp_inv (colr b) (colr b) ?b"
      unfolding emp_inv_def
    proof (intro allI impI)
      fix q assume q: "on_grid q \<and> colr b q = EMPTY"
      show "tracks (chains ?b q) (mset (filter (\<lambda>n. colr b n = EMPTY) (neighbours q)))"
      proof (cases "q = p")
        case True
        then show ?thesis
          using tracks_new_chain [of "chains b p" "filter (\<lambda>n. colr b n = EMPTY) (neighbours p)"]
          by (simp add: new_chain_at_def)
      next
        case False
        then have "chains ?b q = chains b q" by (simp add: new_chain_at_def)
        with e q show ?thesis by (simp add: emp_inv_def)
      qed
    qed
    show ?thesis using j st em col by (auto simp: new_chain_at_def)
  next
    case False
    with alt obtain m where m: "m \<in> set (neighbours p)" "colr b m = c" "lh = head b m" by auto
    have gm: "on_grid m" using gn m(1) by simp
    have sm: "is_stone (colr b m)" using m(2) c by simp
    have gl: "on_grid lh" using struct_head_grid [OF s gm] m(3) by simp
    have cl: "colr b lh = c" using struct_head_color [OF s gm sm] m by simp
    have hl: "head b lh = lh" using struct_head_head [OF s gm] m(3) by simp
    from join_neighbours_ok [OF c gl s gn cl hl] obtain b' where
      r: "join_neighbours b c lh (neighbours p) = Some (Inr b')" "struct_inv (colr b') b'"
        "join_frame b b'" "head b' lh = lh" by blast
    have col': "colr b' q = colr b q" for q using r(3) by (simp add: join_frame_def)
    have pl: "p \<noteq> lh" using cl ep c by (auto simp: is_stone_def)
    let ?b = "inserted b' p lh"
    have i: "insert_stone b' p lh = Inr ?b"
      using gp gl pl r(4) gn by (rule insert_stone_inserted)
    have j: "join_chains_around b p c = Some (Inr ?b)"
      using l False r(1) i by (simp add: join_chains_around_def)
    have "struct_inv ((colr b')(p := colr b' lh)) ?b"
      using r(2) gp _ gl _ r(4) by (rule struct_inserted) (simp_all add: col' np cl c)
    moreover have "(colr b')(p := colr b' lh) = (colr b)(p := c)"
      by (simp add: fun_eq_iff col' cl)
    ultimately have st: "struct_inv ((colr b)(p := c)) ?b" by simp
    have col: "colr ?b q = colr b q" for q by (simp add: inserted_def col')
    have em: "emp_inv (colr b) (colr b) ?b"
      unfolding emp_inv_def
    proof (intro allI impI)
      fix q assume q: "on_grid q \<and> colr b q = EMPTY"
      then have "q \<noteq> lh" "\<not> is_stone (colr b q)" using cl c by (auto simp: is_stone_def)
      then have "chains ?b q = chains b q"
        using r(3) by (simp add: inserted_def join_frame_def)
      with e q show "tracks (chains ?b q) (mset (filter (\<lambda>n. colr b n = EMPTY) (neighbours q)))"
        by (simp add: emp_inv_def)
    qed
    have "board_size ?b = board_size b" "last_ko_point ?b = last_ko_point b"
      "last_captures ?b = last_captures b" "zobrist_hash ?b = zobrist_hash b"
      using r(3) by (simp_all add: inserted_def join_frame_def)
    then show ?thesis using j st em col by auto
  qed
qed

section \<open>Placing the stone\<close>

lemma mset_filter_remove1:
  "distinct xs \<Longrightarrow> p \<in> set xs \<Longrightarrow> P p \<Longrightarrow>
   mset (filter P xs) = add_mset p (mset (filter (\<lambda>n. n \<noteq> p \<and> P n) xs))"
proof (induction xs)
  case Nil
  then show ?case by simp
next
  case (Cons x xs)
  show ?case
  proof (cases "x = p")
    case True
    with Cons.prems have "p \<notin> set xs" by simp
    then have "filter (\<lambda>n. n \<noteq> p \<and> P n) xs = filter P xs"
      by (intro filter_cong) auto
    with True Cons.prems show ?thesis by simp
  next
    case False
    with Cons show ?thesis by simp
  qed
qed

lemma slot_of_other:
  assumes s: "struct_inv cl b" and gn: "on_grid n" and gq: "on_grid q"
    and eq: "\<not> is_stone (cl q)" and ne: "n \<noteq> q"
  shows "head b n \<noteq> q"
proof (cases "is_stone (cl n)")
  case True
  then have "is_stone (cl (head b n))" using struct_head_stone [OF s gn] by simp
  with eq show ?thesis by auto
next
  case False
  with struct_other [OF s gn] ne show ?thesis by simp
qed

lemma area_neighbours:
  "area_inv cl sz \<Longrightarrow> in_area sz p \<Longrightarrow> on_grid p \<and> (\<forall>n \<in> set (neighbours p). on_grid n)"
  using in_area_on_grid [of sz p] in_area_neighbours_on_grid [of sz p]
  by (simp add: area_inv_def)

lemma place_stone_ok:
  assumes inv: "board_inv Z b" and ia: "in_area (board_size b) p"
    and ep: "colr b p = EMPTY" and c: "is_stone c"
  shows "\<exists>b3. place_stone Z b p c = Some (Inr b3) \<and> board_inv Z b3 \<and>
           (\<forall>q. colr b3 q = ((colr b)(p := c)) q) \<and> board_size b3 = board_size b \<and>
           last_ko_point b3 = last_ko_point b \<and> last_captures b3 = last_captures b"
proof -
  from inv have ar: "area_inv (colr b) (board_size b)" and s: "struct_inv (colr b) b"
    and e: "emp_inv (colr b) (colr b) b" and lc: "length (last_captures b) = 4"
    and hs: "zobrist_hash b = hash_of Z (colr b)"
    by (simp_all add: board_inv_def)
  from area_neighbours [OF ar ia] have gp: "on_grid p"
    and gn: "\<forall>n \<in> set (neighbours p). on_grid n" by simp_all
  from join_chains_around_ok [OF s e gp gn ep c] obtain b1 where
    j: "join_chains_around b p c = Some (Inr b1)"
    and s1: "struct_inv ((colr b)(p := c)) b1" and e1: "emp_inv (colr b) (colr b) b1"
    and col1: "\<And>q. colr b1 q = colr b q" and f1: "board_size b1 = board_size b"
      "last_ko_point b1 = last_ko_point b" "last_captures b1 = last_captures b"
      "zobrist_hash b1 = zobrist_hash b"
    by blast
  have ce: "c \<noteq> EMPTY" "c \<noteq> GUARD" using c by (auto simp: is_stone_def)
  let ?cl = "(colr b)(p := c)"
  let ?b2 = "update_vertex (b1\<lparr>zobrist_hash := zobrist_hash b1 XOR Z p c\<rparr>) p (\<lambda>v. v\<lparr>color := c\<rparr>)"
  have ss: "set_stone Z b1 p c = Inr ?b2" using gp ce by (simp add: set_stone_def)
  have col2: "colr ?b2 = ?cl" by (simp add: fun_eq_iff col1)
  have s2: "struct_inv ?cl ?b2"
    by (rule struct_inv_cong [OF _ _ s1]) simp_all
  have hg: "\<forall>n \<in> set (neighbours p). on_grid n \<and> on_grid (head ?b2 n)"
    using gn struct_head_grid [OF s2] by blast
  let ?g = "\<lambda>ch. remove_liberty ch p"
  let ?b3 = "?b2\<lparr>chains := bump (head ?b2) ?g (neighbours p) (chains ?b2)\<rparr>"
  have rl: "remove_liberty_from_neighbouring_chains ?b2 p = Inr ?b3"
    unfolding remove_liberty_from_neighbouring_chains_def using hg by (rule remove_liberties_closed)
  have pl: "place_stone Z b p c = Some (Inr ?b3)"
    by (simp add: place_stone_def j ss rl)
  have col3: "colr ?b3 = ?cl" by (simp add: fun_eq_iff col1)
  have s3: "struct_inv ?cl ?b3"
    by (rule struct_inv_cong [OF _ _ s2]) (simp_all add: bump_num_stones)
  have e3: "emp_inv ?cl ?cl ?b3"
    unfolding emp_inv_def
  proof (intro allI impI)
    fix q assume "on_grid q \<and> ?cl q = EMPTY"
    then have gq: "on_grid q" and qp: "q \<noteq> p" and eq: "colr b q = EMPTY"
      using ce by (auto split: if_splits)
    have nq: "\<not> is_stone (?cl q)" using eq qp by (simp add: is_stone_def)
    have hq: "head ?b2 q = q" using struct_other [OF s2 gq nq] by simp
    have others: "\<forall>n \<in> set (neighbours p). n \<noteq> q \<longrightarrow> head ?b2 n \<noteq> q"
      using slot_of_other [OF s2 _ gq nq] gn by blast
    have t1: "tracks (chains b1 q) (mset (filter (\<lambda>n. colr b n = EMPTY) (neighbours q)))"
      using e1 gq eq by (simp add: emp_inv_def)
    show "tracks (chains ?b3 q) (mset (filter (\<lambda>n. ?cl n = EMPTY) (neighbours q)))"
    proof (cases "q \<in> set (neighbours p)")
      case True
      then have pq: "p \<in> set (neighbours q)" by (simp add: neighbour_sym)
      have "bump (head ?b2) ?g (neighbours p) (chains ?b2) (head ?b2 q) = ?g (chains ?b2 (head ?b2 q))"
        using distinct_neighbours True others hq by (intro bump_once) auto
      then have c3: "chains ?b3 q = remove_liberty (chains b1 q) p" using hq by simp
      have "mset (filter (\<lambda>n. colr b n = EMPTY) (neighbours q))
          = add_mset p (mset (filter (\<lambda>n. n \<noteq> p \<and> colr b n = EMPTY) (neighbours q)))"
        using distinct_neighbours pq ep by (rule mset_filter_remove1)
      moreover have "filter (\<lambda>n. n \<noteq> p \<and> colr b n = EMPTY) (neighbours q)
          = filter (\<lambda>n. ?cl n = EMPTY) (neighbours q)"
        using ce by (intro filter_cong) auto
      ultimately have "tracks (chains b1 q)
          (add_mset p (mset (filter (\<lambda>n. ?cl n = EMPTY) (neighbours q))))"
        using t1 by simp
      then show ?thesis unfolding c3 by (rule tracks_remove_liberty)
    next
      case False
      then have pq: "p \<notin> set (neighbours q)" by (simp add: neighbour_sym)
      have "\<forall>n \<in> set (neighbours p). head ?b2 n \<noteq> q" using others False by auto
      then have "bump (head ?b2) ?g (neighbours p) (chains ?b2) q = chains ?b2 q"
        by (rule bump_other)
      then have c3: "chains ?b3 q = chains b1 q" by simp
      have "filter (\<lambda>n. colr b n = EMPTY) (neighbours q)
          = filter (\<lambda>n. ?cl n = EMPTY) (neighbours q)"
        using pq by (intro filter_cong) auto
      with t1 show ?thesis unfolding c3 by simp
    qed
  qed
  have a3: "area_inv ?cl (board_size b)"
    using ar ia ce gp by (auto simp: area_inv_def)
  have h3: "zobrist_hash ?b3 = hash_of Z ?cl"
  proof -
    have "hash_of Z ?cl = hash_of Z (colr b) XOR zvalue Z (colr b) p XOR zvalue Z ?cl p"
      using gp by (rule hash_of_update)
    also have "\<dots> = hash_of Z (colr b) XOR Z p c"
      using ep c by (simp add: zvalue_def is_stone_def)
    finally show ?thesis using hs f1(4) by simp
  qed
  have "board_inv Z ?b3"
    unfolding board_inv_def col3 using a3 s3 e3 lc h3 f1 by simp
  moreover have "\<forall>q. colr ?b3 q = ?cl q" by (simp add: col1)
  moreover have "board_size ?b3 = board_size b" "last_ko_point ?b3 = last_ko_point b"
    "last_captures ?b3 = last_captures b" using f1 by simp_all
  ultimately show ?thesis using pl by blast
qed

section \<open>Removing one stone of a captured chain\<close>

lemma bump_cong:
  "\<forall>n \<in> set ns. hf' n = hf n \<Longrightarrow> bump hf' g ns ch = bump hf g ns ch"
  by (induction ns arbitrary: ch) (simp_all add: bump_Cons)

lemma cleared_fields [simp]:
  "board (cleared Z b h cur)
     = (board b)(cur := (board b cur)\<lparr>chain_head := cur, chain_next := cur, color := EMPTY\<rparr>)"
  "board_size (cleared Z b h cur) = board_size b"
  "last_ko_point (cleared Z b h cur) = last_ko_point b"
  "last_captures (cleared Z b h cur) = last_captures b"
  "zobrist_hash (cleared Z b h cur) = zobrist_hash b XOR Z cur (colr b cur)"
  by (simp_all add: cleared_def)

lemma chains_cleared:
  "chains (cleared Z b h cur)
     = bump (head b) (\<lambda>ch. add_liberty ch cur)
         (filter (\<lambda>n. head b n \<noteq> h \<or> colr b n = EMPTY) (neighbours cur))
         ((chains b)(cur := foldl add_liberty ((reset (chains b cur))\<lparr>num_stones := 1\<rparr>)
                              (filter (\<lambda>n. colr b n = EMPTY) (neighbours cur))))"
  by (simp add: cleared_def)

lemma remove_stone_cleared:
  assumes gc: "on_grid cur" and gn: "\<forall>n \<in> set (neighbours cur). on_grid n \<and> on_grid (head b n)"
  shows "remove_stone Z b h cur = Inr (cleared Z b h cur)"
proof -
  let ?b1 = "update_vertex (b\<lparr>zobrist_hash := zobrist_hash b XOR Z cur (colr b cur)\<rparr>) cur
               (\<lambda>v. v\<lparr>color := EMPTY\<rparr>)"
  let ?b2 = "new_chain_at ?b1 cur"
  let ?g = "\<lambda>ch. add_liberty ch cur"
  let ?b3 = "?b2\<lparr>chains := bump (head ?b2) ?g
                 (filter (\<lambda>n. head ?b2 n \<noteq> h \<or> colr ?b2 n = EMPTY) (neighbours cur)) (chains ?b2)\<rparr>"
  have ss: "set_stone Z b cur EMPTY = Inr ?b1" using gc by (simp add: set_stone_def)
  have gn': "\<forall>n \<in> set (neighbours cur). on_grid n" using gn by simp
  have ic: "init_new_chain ?b1 cur = Inr ?b2"
    using gc gn' by (rule init_new_chain_new_chain_at)
  have nc: "n \<noteq> cur" if "n \<in> set (neighbours cur)" for n using that by auto
  have hd2: "head ?b2 n = head b n" if "n \<in> set (neighbours cur)" for n
    using nc [OF that] by (simp add: new_chain_at_def)
  have cl2: "colr ?b2 n = colr b n" if "n \<in> set (neighbours cur)" for n
    using nc [OF that] by (simp add: new_chain_at_def)
  have "\<forall>n \<in> set (neighbours cur). on_grid n \<and> on_grid (head ?b2 n)"
    using gn hd2 by simp
  then have rs: "restore_liberties ?b2 h cur (neighbours cur) = Inr ?b3"
    by (rule restore_liberties_closed)
  have f: "filter (\<lambda>n. head ?b2 n \<noteq> h \<or> colr ?b2 n = EMPTY) (neighbours cur)
         = filter (\<lambda>n. head b n \<noteq> h \<or> colr b n = EMPTY) (neighbours cur)"
    using hd2 cl2 by (intro filter_cong) auto
  have f1: "filter (\<lambda>n. colr ?b1 n = EMPTY) (neighbours cur)
         = filter (\<lambda>n. colr b n = EMPTY) (neighbours cur)"
    using nc by (intro filter_cong) auto
  have bm: "bump (head ?b2) ?g (filter (\<lambda>n. head b n \<noteq> h \<or> colr b n = EMPTY) (neighbours cur))
              (chains ?b2)
          = bump (head b) ?g (filter (\<lambda>n. head b n \<noteq> h \<or> colr b n = EMPTY) (neighbours cur))
              (chains ?b2)"
    using hd2 by (intro bump_cong) auto
  have b2: "?b2 = update_chain (update_vertex ?b1 cur (\<lambda>v. v\<lparr>chain_head := cur, chain_next := cur\<rparr>)) cur
       (\<lambda>ch. foldl add_liberty ((reset ch)\<lparr>num_stones := 1\<rparr>)
                (filter (\<lambda>n. colr b n = EMPTY) (neighbours cur)))"
    by (simp only: new_chain_at_def f1)
  have "?b3 = cleared Z b h cur"
    unfolding f bm unfolding b2
    by (auto simp: cleared_def update_vertex_def update_chain_def fun_eq_iff
        intro!: GoBoard.equality)
  then show ?thesis by (simp add: remove_stone_def ss ic rs)
qed

lemma mid_structD:
  assumes "mid_struct b h rem"
  shows "on_grid h" "h \<in> set rem \<or> colr b h = EMPTY" "distinct rem"
    "\<And>q. q \<in> set rem \<Longrightarrow> on_grid q \<and> head b q = h \<and> is_stone (colr b q)"
    "\<And>q. on_grid q \<Longrightarrow> q \<notin> set rem \<Longrightarrow> is_stone (colr b q) \<Longrightarrow>
       on_grid (head b q) \<and> is_stone (colr b (head b q)) \<and> head b q \<notin> set rem"
    "\<And>q. on_grid q \<Longrightarrow> q \<notin> set rem \<Longrightarrow> \<not> is_stone (colr b q) \<Longrightarrow> head b q = q"
proof -
  from assms have a: "on_grid h" "h \<in> set rem \<or> colr b h = EMPTY" "distinct rem"
    and Q: "\<forall>q. on_grid q \<longrightarrow>
        (if q \<in> set rem then head b q = h \<and> is_stone (colr b q)
         else if is_stone (colr b q)
              then on_grid (head b q) \<and> is_stone (colr b (head b q)) \<and> head b q \<notin> set rem
              else head b q = q)"
    and g: "\<forall>q \<in> set rem. on_grid q"
    unfolding mid_struct_def by simp_all
  show "on_grid h" "h \<in> set rem \<or> colr b h = EMPTY" "distinct rem" using a by simp_all
  show "on_grid q \<and> head b q = h \<and> is_stone (colr b q)" if "q \<in> set rem" for q
  proof -
    have gq: "on_grid q" using g that by simp
    with Q have "if q \<in> set rem then head b q = h \<and> is_stone (colr b q)
         else if is_stone (colr b q)
              then on_grid (head b q) \<and> is_stone (colr b (head b q)) \<and> head b q \<notin> set rem
              else head b q = q" by simp
    with that gq show ?thesis by simp
  qed
  show "on_grid (head b q) \<and> is_stone (colr b (head b q)) \<and> head b q \<notin> set rem"
    if "on_grid q" "q \<notin> set rem" "is_stone (colr b q)" for q
  proof -
    from Q that(1) have "if q \<in> set rem then head b q = h \<and> is_stone (colr b q)
         else if is_stone (colr b q)
              then on_grid (head b q) \<and> is_stone (colr b (head b q)) \<and> head b q \<notin> set rem
              else head b q = q" by simp
    with that show ?thesis by simp
  qed
  show "head b q = q" if "on_grid q" "q \<notin> set rem" "\<not> is_stone (colr b q)" for q
  proof -
    from Q that(1) have "if q \<in> set rem then head b q = h \<and> is_stone (colr b q)
         else if is_stone (colr b q)
              then on_grid (head b q) \<and> is_stone (colr b (head b q)) \<and> head b q \<notin> set rem
              else head b q = q" by simp
    with that show ?thesis by simp
  qed
qed

lemma mid_structI:
  assumes "on_grid h" "h \<in> set rem \<or> colr b h = EMPTY" "distinct rem"
    "\<And>q. q \<in> set rem \<Longrightarrow> on_grid q \<and> head b q = h \<and> is_stone (colr b q)"
    "\<And>q. on_grid q \<Longrightarrow> q \<notin> set rem \<Longrightarrow> is_stone (colr b q) \<Longrightarrow>
       on_grid (head b q) \<and> is_stone (colr b (head b q)) \<and> head b q \<notin> set rem"
    "\<And>q. on_grid q \<Longrightarrow> q \<notin> set rem \<Longrightarrow> \<not> is_stone (colr b q) \<Longrightarrow> head b q = q"
  shows "mid_struct b h rem"
  unfolding mid_struct_def
proof (intro conjI allI impI ballI)
  show "on_grid h" "h \<in> set rem \<or> colr b h = EMPTY" "distinct rem" using assms(1-3) by simp_all
  show "on_grid q" if "q \<in> set rem" for q using assms(4) [OF that] by simp
  show "if q \<in> set rem then head b q = h \<and> is_stone (colr b q)
         else if is_stone (colr b q)
              then on_grid (head b q) \<and> is_stone (colr b (head b q)) \<and> head b q \<notin> set rem
              else head b q = q" if "on_grid q" for q
  proof (cases "q \<in> set rem")
    case True
    with assms(4) [OF True] show ?thesis by simp
  next
    case False
    show ?thesis
    proof (cases "is_stone (colr b q)")
      case True
      with False assms(5) [OF that False True] show ?thesis by simp
    next
      case ns: False
      with False assms(6) [OF that False ns] show ?thesis by simp
    qed
  qed
qed

lemma mid_struct_cleared:
  assumes ms: "mid_struct b h (cur # rest)"
  shows "mid_struct (cleared Z b h cur) h rest"
proof (rule mid_structI)
  note d = mid_structD [OF ms]
  have cr: "cur \<notin> set rest" using d(3) by simp
  show "on_grid h" using d(1) .
  show "h \<in> set rest \<or> colr (cleared Z b h cur) h = EMPTY"
    using d(2) by (cases "h = cur") auto
  show "distinct rest" using d(3) by simp
  show "on_grid q \<and> head (cleared Z b h cur) q = h \<and> is_stone (colr (cleared Z b h cur) q)"
    if "q \<in> set rest" for q
  proof -
    have "q \<noteq> cur" using that cr by auto
    moreover have "on_grid q \<and> head b q = h \<and> is_stone (colr b q)" using d(4) [of q] that by simp
    ultimately show ?thesis by simp
  qed
  show "on_grid (head (cleared Z b h cur) q) \<and>
        is_stone (colr (cleared Z b h cur) (head (cleared Z b h cur) q)) \<and>
        head (cleared Z b h cur) q \<notin> set rest"
    if q: "on_grid q" "q \<notin> set rest" "is_stone (colr (cleared Z b h cur) q)" for q
  proof -
    have qc: "q \<noteq> cur" using q(3) by (auto simp: is_stone_def)
    then have "q \<notin> set (cur # rest)" "is_stone (colr b q)" using q by simp_all
    from d(5) [OF q(1) this] have "on_grid (head b q)" "is_stone (colr b (head b q))"
      "head b q \<noteq> cur" "head b q \<notin> set rest" by simp_all
    then show ?thesis using qc by simp
  qed
  show "head (cleared Z b h cur) q = q"
    if q: "on_grid q" "q \<notin> set rest" "\<not> is_stone (colr (cleared Z b h cur) q)" for q
  proof (cases "q = cur")
    case True
    then show ?thesis by simp
  next
    case False
    then have "q \<notin> set (cur # rest)" "\<not> is_stone (colr b q)" using q by simp_all
    from d(6) [OF q(1) this] show ?thesis using False by simp
  qed
qed

lemma mid_inv_cleared:
  assumes m: "mid_inv Z b h (cur # rest)"
  shows "mid_inv Z (cleared Z b h cur) h rest"
proof -
  let ?b = "cleared Z b h cur"
  from m have ar: "area_inv (colr b) (board_size b)" and e: "emp_inv (colr b) (colr b) b"
    and hs: "zobrist_hash b = hash_of Z (colr b)" and ms: "mid_struct b h (cur # rest)"
    by (simp_all add: mid_inv_def)
  note d = mid_structD [OF ms]
  have c: "on_grid cur" "head b cur = h" "is_stone (colr b cur)" using d(4) [of cur] by simp_all
  have cne: "colr b cur \<noteq> EMPTY" "colr b cur \<noteq> GUARD" using c(3) by (auto simp: is_stone_def)
  have ia: "in_area (board_size b) cur" using ar c(1) cne(2) by (auto simp: area_inv_def)
  from area_neighbours [OF ar ia] have gn: "\<forall>n \<in> set (neighbours cur). on_grid n" by simp
  have col: "colr ?b = (colr b)(cur := EMPTY)" by (simp add: fun_eq_iff)
  have a': "area_inv (colr ?b) (board_size ?b)"
    unfolding col using ar ia by (auto simp: area_inv_def)
  have h': "zobrist_hash ?b = hash_of Z (colr ?b)"
  proof -
    have "hash_of Z ((colr b)(cur := EMPTY))
        = hash_of Z (colr b) XOR zvalue Z (colr b) cur XOR zvalue Z ((colr b)(cur := EMPTY)) cur"
      using c(1) by (rule hash_of_update)
    also have "\<dots> = hash_of Z (colr b) XOR Z cur (colr b cur)"
      using c(3) by (simp add: zvalue_def is_stone_def)
    finally show ?thesis unfolding col using hs by simp
  qed
  let ?flt = "filter (\<lambda>n. head b n \<noteq> h \<or> colr b n = EMPTY) (neighbours cur)"
  let ?new = "foldl add_liberty ((reset (chains b cur))\<lparr>num_stones := 1\<rparr>)
                (filter (\<lambda>n. colr b n = EMPTY) (neighbours cur))"
  let ?g = "\<lambda>ch. add_liberty ch cur"
  have other: "head b n \<noteq> q"
    if n: "n \<in> set ?flt" and nq: "n \<noteq> q" and q: "q = cur \<or> \<not> is_stone (colr b q)" for n q
  proof -
    from n have nn: "n \<in> set (neighbours cur)" and fl: "head b n \<noteq> h \<or> colr b n = EMPTY" by simp_all
    have g: "on_grid n" using gn nn by simp
    have nr: "n \<notin> set (cur # rest)"
    proof
      assume "n \<in> set (cur # rest)"
      from d(4) [OF this] fl show False by (auto simp: is_stone_def)
    qed
    show ?thesis
    proof (cases "is_stone (colr b n)")
      case True
      from d(5) [OF g nr True] q show ?thesis by auto
    next
      case False
      from d(6) [OF g nr False] nq show ?thesis by simp
    qed
  qed
  have e': "emp_inv (colr ?b) (colr ?b) ?b"
    unfolding emp_inv_def
  proof (intro allI impI)
    fix q assume a: "on_grid q \<and> colr ?b q = EMPTY"
    then have gq: "on_grid q" by simp
    show "tracks (chains ?b q) (mset (filter (\<lambda>n. colr ?b n = EMPTY) (neighbours q)))"
    proof (cases "q = cur")
      case True
      have "\<forall>n \<in> set ?flt. head b n \<noteq> cur"
      proof
        fix n assume n: "n \<in> set ?flt"
        then have "n \<noteq> cur" by auto
        with other [OF n] show "head b n \<noteq> cur" by simp
      qed
      then have c1: "chains ?b cur = ?new" unfolding chains_cleared by (simp add: bump_other)
      have f1: "filter (\<lambda>n. colr ?b n = EMPTY) (neighbours cur)
          = filter (\<lambda>n. colr b n = EMPTY) (neighbours cur)"
        by (intro filter_cong) auto
      show ?thesis unfolding True c1 f1 by (rule tracks_new_chain)
    next
      case False
      with a have eq: "colr b q = EMPTY" by simp
      then have nsq: "\<not> is_stone (colr b q)" by (simp add: is_stone_def)
      have qr: "q \<notin> set (cur # rest)" using d(4) [of q] nsq by auto
      have hq: "head b q = q" using d(6) [OF gq qr nsq] .
      have t0: "tracks (chains b q) (mset (filter (\<lambda>n. colr b n = EMPTY) (neighbours q)))"
        using e gq eq by (simp add: emp_inv_def)
      show ?thesis
      proof (cases "q \<in> set (neighbours cur)")
        case True
        then have cq: "cur \<in> set (neighbours q)" by (simp add: neighbour_sym)
        have qf: "q \<in> set ?flt" using True eq by simp
        have df: "distinct ?flt" using distinct_neighbours by simp
        have "\<forall>n \<in> set ?flt. n \<noteq> q \<longrightarrow> head b n \<noteq> head b q"
          using other nsq hq by auto
        with df qf have "bump (head b) ?g ?flt ((chains b)(cur := ?new)) (head b q)
            = ?g (((chains b)(cur := ?new)) (head b q))" by (rule bump_once)
        then have c3: "chains ?b q = add_liberty (chains b q) cur"
          unfolding chains_cleared using hq False by simp
        have "mset (filter (\<lambda>n. colr ?b n = EMPTY) (neighbours q))
            = add_mset cur (mset (filter (\<lambda>n. n \<noteq> cur \<and> colr ?b n = EMPTY) (neighbours q)))"
          using distinct_neighbours cq by (rule mset_filter_remove1) simp
        moreover have "filter (\<lambda>n. n \<noteq> cur \<and> colr ?b n = EMPTY) (neighbours q)
            = filter (\<lambda>n. colr b n = EMPTY) (neighbours q)"
          using cne by (intro filter_cong) auto
        ultimately have "mset (filter (\<lambda>n. colr ?b n = EMPTY) (neighbours q))
            = add_mset cur (mset (filter (\<lambda>n. colr b n = EMPTY) (neighbours q)))"
          by (simp only:)
        then show ?thesis unfolding c3 using tracks_add_liberty [OF t0, of cur] by (simp only:)
      next
        case nn: False
        then have cq: "cur \<notin> set (neighbours q)" by (simp add: neighbour_sym)
        have "\<forall>n \<in> set ?flt. head b n \<noteq> q"
        proof
          fix n assume n: "n \<in> set ?flt"
          then have "n \<noteq> q" using nn by auto
          from other [OF n this] nsq show "head b n \<noteq> q" by simp
        qed
        then have "chains ?b q = chains b q"
          unfolding chains_cleared using False by (simp add: bump_other)
        moreover have "filter (\<lambda>n. colr ?b n = EMPTY) (neighbours q)
            = filter (\<lambda>n. colr b n = EMPTY) (neighbours q)"
          using cq by (intro filter_cong) auto
        ultimately show ?thesis using t0 by (simp only:)
      qed
    qed
  qed
  show ?thesis
    unfolding mid_inv_def using a' e' h' mid_struct_cleared [OF ms] by simp
qed

section \<open>Removing a captured chain\<close>

lemma mid_head_grid:
  assumes ms: "mid_struct b h rem" and g: "on_grid q"
  shows "on_grid (head b q)"
proof (cases "q \<in> set rem")
  case True
  with mid_structD(4) [OF ms True] mid_structD(1) [OF ms] show ?thesis by simp
next
  case False
  show ?thesis
  proof (cases "is_stone (colr b q)")
    case True
    from mid_structD(5) [OF ms g False True] show ?thesis by simp
  next
    case ns: False
    from mid_structD(6) [OF ms g False ns] g show ?thesis by simp
  qed
qed

lemma mid_inv_neighbours:
  assumes m: "mid_inv Z b h (cur # rest)"
  shows "on_grid cur \<and> (\<forall>n \<in> set (neighbours cur). on_grid n \<and> on_grid (head b n))"
proof -
  from m have ar: "area_inv (colr b) (board_size b)" and ms: "mid_struct b h (cur # rest)"
    by (simp_all add: mid_inv_def)
  have c: "on_grid cur" "is_stone (colr b cur)" using mid_structD(4) [OF ms, of cur] by simp_all
  have "colr b cur \<noteq> GUARD" using c(2) by (auto simp: is_stone_def)
  then have ia: "in_area (board_size b) cur" using ar c(1) by (auto simp: area_inv_def)
  from area_neighbours [OF ar ia] have gn: "\<forall>n \<in> set (neighbours cur). on_grid n" by simp
  with mid_head_grid [OF ms] c(1) show ?thesis by blast
qed

lemma remove_chain_loop_closed:
  "mid_inv Z b h (cur # rest) \<Longrightarrow> path (nx b) (cur # rest) p0 \<Longrightarrow> p0 \<notin> set rest \<Longrightarrow>
   remove_chain_loop Z b p0 h cur = Some (Inr (removed Z b h (cur # rest)))"
proof (induction rest arbitrary: b cur)
  case Nil
  from mid_inv_neighbours [OF Nil.prems(1)] have g: "on_grid cur"
    and gn: "\<forall>n \<in> set (neighbours cur). on_grid n \<and> on_grid (head b n)" by simp_all
  have rs: "remove_stone Z b h cur = Inr (cleared Z b h cur)"
    using g gn by (rule remove_stone_cleared)
  have "nx b cur = p0" using Nil.prems(2) by simp
  then show ?case
    by (subst remove_chain_loop.simps) (simp add: g rs)
next
  case (Cons r rs)
  from mid_inv_neighbours [OF Cons.prems(1)] have g: "on_grid cur"
    and gn: "\<forall>n \<in> set (neighbours cur). on_grid n \<and> on_grid (head b n)" by simp_all
  have rst: "remove_stone Z b h cur = Inr (cleared Z b h cur)"
    using g gn by (rule remove_stone_cleared)
  have nxt: "nx b cur = r" and p: "path (nx b) (r # rs) p0" using Cons.prems(2) by simp_all
  have ne: "r \<noteq> p0" and p0: "p0 \<notin> set rs" using Cons.prems(3) by auto
  have m': "mid_inv Z (cleared Z b h cur) h (r # rs)"
    using Cons.prems(1) by (rule mid_inv_cleared)
  from Cons.prems(1) have "distinct (cur # r # rs)"
    using mid_structD(3) [of b h "cur # r # rs"] by (simp add: mid_inv_def)
  then have "\<forall>x \<in> set (r # rs). nx (cleared Z b h cur) x = nx b x" by auto
  then have "path (nx (cleared Z b h cur)) (r # rs) p0 = path (nx b) (r # rs) p0"
    by (rule path_cong)
  with p have p': "path (nx (cleared Z b h cur)) (r # rs) p0" by simp
  from Cons.IH [OF m' p' p0]
  have "remove_chain_loop Z (cleared Z b h cur) p0 h r
      = Some (Inr (removed Z (cleared Z b h cur) h (r # rs)))" .
  then show ?case
    by (subst remove_chain_loop.simps) (simp add: g rst nxt ne)
qed

lemma mid_inv_removed:
  "mid_inv Z b h xs \<Longrightarrow> mid_inv Z (removed Z b h xs) h []"
proof (induction xs arbitrary: b)
  case Nil
  then show ?case by simp
next
  case (Cons x xs)
  from mid_inv_cleared [OF Cons.prems] have "mid_inv Z (cleared Z b h x) h xs" .
  from Cons.IH [OF this] show ?case by simp
qed

lemma removed_fields [simp]:
  "board_size (removed Z b h xs) = board_size b"
  "last_ko_point (removed Z b h xs) = last_ko_point b"
  "last_captures (removed Z b h xs) = last_captures b"
  by (induction xs arbitrary: b) simp_all

lemma board_removed:
  "board (removed Z b h xs) q =
     (if q \<in> set xs then (board b q)\<lparr>chain_head := q, chain_next := q, color := EMPTY\<rparr>
      else board b q)"
proof (induction xs arbitrary: b)
  case Nil
  then show ?case by simp
next
  case (Cons x xs)
  show ?case by (simp add: Cons.IH)
qed

lemma colr_removed: "colr (removed Z b h xs) q = (if q \<in> set xs then EMPTY else colr b q)"
  by (simp add: board_removed)

lemma head_removed: "head (removed Z b h xs) q = (if q \<in> set xs then q else head b q)"
  by (simp add: board_removed)

lemma nx_removed: "nx (removed Z b h xs) q = (if q \<in> set xs then q else nx b q)"
  by (simp add: board_removed)

lemma num_stones_cleared:
  "j \<noteq> cur \<Longrightarrow> num_stones (chains (cleared Z b h cur) j) = num_stones (chains b j)"
  unfolding chains_cleared by (simp add: bump_num_stones)

lemma num_stones_removed:
  "j \<notin> set xs \<Longrightarrow> num_stones (chains (removed Z b h xs) j) = num_stones (chains b j)"
proof (induction xs arbitrary: b)
  case Nil
  then show ?case by simp
next
  case (Cons x xs)
  then have "j \<noteq> x" "j \<notin> set xs" by simp_all
  with Cons.IH [of "cleared Z b h x"] num_stones_cleared [of j x Z b h] show ?case by simp
qed

lemma mid_struct_chain:
  assumes s: "struct_inv (colr b) b" and c: "chain_list (colr b) b h xs"
  shows "mid_struct b h xs"
proof (rule mid_structI)
  from chain_list_head [OF c] show "on_grid h" "h \<in> set xs \<or> colr b h = EMPTY" by simp_all
  show "distinct xs" using chain_list_distinct [OF c] .
  show "on_grid q \<and> head b q = h \<and> is_stone (colr b q)" if "q \<in> set xs" for q
    using chain_list_set [OF c, of q] that by simp
  show "on_grid (head b q) \<and> is_stone (colr b (head b q)) \<and> head b q \<notin> set xs"
    if q: "on_grid q" "q \<notin> set xs" "is_stone (colr b q)" for q
  proof -
    have "head b q \<notin> set xs"
    proof
      assume "head b q \<in> set xs"
      from chain_list_member [OF c this] have "head b (head b q) = h" by simp
      with struct_head_head [OF s q(1)] have "head b q = h" by simp
      with chain_list_set [OF c, of q] q show False by simp
    qed
    with struct_head_grid [OF s q(1)] struct_head_stone [OF s q(1)] q(3) show ?thesis by simp
  qed
  show "head b q = q" if "on_grid q" "q \<notin> set xs" "\<not> is_stone (colr b q)" for q
    using struct_other [OF s that(1) that(3)] by simp
qed

lemma struct_removed:
  assumes s: "struct_inv (colr b) b" and c: "chain_list (colr b) b h xs"
  shows "struct_inv (colr (removed Z b h xs)) (removed Z b h xs)"
proof (rule struct_invI)
  let ?b = "removed Z b h xs"
  fix q assume g: "on_grid q"
  {
    assume st: "is_stone (colr ?b q)"
    then have qx: "q \<notin> set xs" and sq: "is_stone (colr b q)"
      by (auto simp: colr_removed is_stone_def split: if_splits)
    from struct_stone [OF s g sq] obtain ys where cy: "chain_list (colr b) b (head b q) (q # ys)" ..
    have hq: "head b q \<noteq> h" using chain_list_set [OF c, of q] g sq qx by simp
    have dis: "x \<notin> set xs" if "x \<in> set (q # ys)" for x
    proof
      assume "x \<in> set xs"
      from chain_list_member [OF c this] chain_list_member [OF cy that] hq show False by simp
    qed
    have hh: "head b q \<notin> set xs" using dis [of "head b q"] chain_list_head [OF cy] by blast
    have "chain_list (colr ?b) ?b (head b q) (q # ys)"
    proof (rule chain_list_transfer [OF cy])
      fix x assume gx: "on_grid x"
      show "(is_stone (colr ?b x) \<and> head ?b x = head b q)
          = (is_stone (colr b x) \<and> head b x = head b q)"
      proof (cases "x \<in> set xs")
        case True
        have "\<not> is_stone EMPTY" by (simp add: is_stone_def)
        with chain_list_member [OF c True] hq show ?thesis
          using True by (simp add: colr_removed)
      next
        case False
        then show ?thesis by (simp add: colr_removed head_removed)
      qed
    next
      fix x assume "x \<in> set (q # ys)"
      from dis [OF this] show "nx ?b x = nx b x \<and> colr ?b x = colr b x"
        by (simp add: colr_removed nx_removed)
    next
      show "num_stones (chains ?b (head b q)) = num_stones (chains b (head b q))"
        using hh by (rule num_stones_removed)
    qed
    moreover have "head ?b q = head b q" using qx by (simp add: head_removed)
    ultimately show "\<exists>zs. chain_list (colr ?b) ?b (head ?b q) zs" by auto
  }
  {
    assume ns: "\<not> is_stone (colr ?b q)"
    show "head ?b q = q \<and> nx ?b q = q"
    proof (cases "q \<in> set xs")
      case True
      then show ?thesis by (simp add: head_removed nx_removed)
    next
      case False
      with ns have "\<not> is_stone (colr b q)" by (simp add: colr_removed)
      from struct_other [OF s g this] False show ?thesis by (simp add: head_removed nx_removed)
    qed
  }
qed

lemma remove_chain_ok:
  assumes inv: "board_inv Z b" and g: "on_grid n" and st: "is_stone (colr b n)"
  shows "\<exists>ys. chain_list (colr b) b (head b n) (n # ys) \<and>
           remove_chain Z b n = Some (Inr (removed Z b (head b n) (n # ys))) \<and>
           board_inv Z (removed Z b (head b n) (n # ys))"
proof -
  from inv have ar: "area_inv (colr b) (board_size b)" and s: "struct_inv (colr b) b"
    and e: "emp_inv (colr b) (colr b) b" and lc: "length (last_captures b) = 4"
    and hs: "zobrist_hash b = hash_of Z (colr b)"
    by (simp_all add: board_inv_def)
  from struct_stone [OF s g st] obtain ys where c: "chain_list (colr b) b (head b n) (n # ys)" ..
  let ?h = "head b n"
  let ?b = "removed Z b ?h (n # ys)"
  have ms: "mid_struct b ?h (n # ys)" using s c by (rule mid_struct_chain)
  have m: "mid_inv Z b ?h (n # ys)" unfolding mid_inv_def using ar e hs ms by simp
  have p: "path (nx b) (n # ys) n" using chain_list_path [OF c] by simp
  have d: "n \<notin> set ys" using chain_list_distinct [OF c] by simp
  have "remove_chain_loop Z b n ?h n = Some (Inr ?b)"
    using m p d by (rule remove_chain_loop_closed)
  then have r: "remove_chain Z b n = Some (Inr ?b)" using g by (simp add: remove_chain_def)
  from mid_inv_removed [OF m] have m': "mid_inv Z ?b ?h []" .
  have s': "struct_inv (colr ?b) ?b" using s c by (rule struct_removed)
  have "board_inv Z ?b"
    unfolding board_inv_def using m' s' lc by (simp add: mid_inv_def)
  with c r show ?thesis by blast
qed

section \<open>Capturing the dead chains\<close>

declare removed.simps [simp del]

lemma finite_on_grid: "finite {q. on_grid q}"
proof -
  have "{q. on_grid q} = set grid" by (auto simp: set_grid)
  then show ?thesis by simp
qed

lemma finite_captured: "finite (captured b b')"
  by (rule finite_subset [OF _ finite_on_grid]) (auto simp: captured_def)

lemma captured_same: "\<forall>q. colr b' q = colr b q \<Longrightarrow> captured b b' = {}"
  by (auto simp: captured_def is_stone_def)

lemma captured_trans:
  assumes 1: "\<forall>q. colr b2 q = colr b q \<or> (is_stone (colr b q) \<and> colr b2 q = EMPTY)"
    and 2: "\<forall>q. colr b' q = colr b2 q \<or> (is_stone (colr b2 q) \<and> colr b' q = EMPTY)"
  shows "captured b b' = captured b b2 \<union> captured b2 b'"
    and "captured b b2 \<inter> captured b2 b' = {}"
proof -
  have ne: "\<not> is_stone EMPTY" by (simp add: is_stone_def)
  show "captured b b' = captured b b2 \<union> captured b2 b'"
  proof (rule set_eqI)
    fix q
    from 1 have a: "colr b2 q = colr b q \<or> (is_stone (colr b q) \<and> colr b2 q = EMPTY)" ..
    from 2 have b: "colr b' q = colr b2 q \<or> (is_stone (colr b2 q) \<and> colr b' q = EMPTY)" ..
    from a b ne show "q \<in> captured b b' \<longleftrightarrow> q \<in> captured b b2 \<union> captured b2 b'"
      by (auto simp: captured_def)
  qed
  show "captured b b2 \<inter> captured b2 b' = {}"
    using ne by (auto simp: captured_def)
qed

lemma card_captured_trans:
  assumes "\<forall>q. colr b2 q = colr b q \<or> (is_stone (colr b q) \<and> colr b2 q = EMPTY)"
    and "\<forall>q. colr b' q = colr b2 q \<or> (is_stone (colr b2 q) \<and> colr b' q = EMPTY)"
  shows "card (captured b b') = card (captured b b2) + card (captured b2 b')"
  using captured_trans [OF assms] finite_captured
  by (simp add: card_Un_disjoint)

lemma board_inv_last_captures:
  "board_inv Z b \<Longrightarrow> length xs = 4 \<Longrightarrow> board_inv Z (b\<lparr>last_captures := xs\<rparr>)"
proof -
  assume inv: "board_inv Z b" and l: "length xs = 4"
  let ?b = "b\<lparr>last_captures := xs\<rparr>"
  have s: "struct_inv (colr b) ?b"
    by (rule struct_inv_cong [of ?b b]) (use inv in \<open>simp_all add: board_inv_def\<close>)
  have e: "emp_inv (colr b) (colr b) ?b"
    using inv by (simp add: board_inv_def emp_inv_def)
  show ?thesis
    unfolding board_inv_def using inv s e l by (simp add: board_inv_def)
qed

lemma board_inv_last_ko_point:
  "board_inv Z b \<Longrightarrow> board_inv Z (b\<lparr>last_ko_point := k\<rparr>)"
proof -
  assume inv: "board_inv Z b"
  let ?b = "b\<lparr>last_ko_point := k\<rparr>"
  have s: "struct_inv (colr b) ?b"
    by (rule struct_inv_cong [of ?b b]) (use inv in \<open>simp_all add: board_inv_def\<close>)
  have e: "emp_inv (colr b) (colr b) ?b"
    using inv by (simp add: board_inv_def emp_inv_def)
  show ?thesis
    unfolding board_inv_def using inv s e by (simp add: board_inv_def)
qed

lemma captured_removed:
  assumes c: "chain_list (colr b) b h xs"
  shows "captured b (removed Z b h xs) = set xs"
proof (rule set_eqI)
  fix q
  show "q \<in> captured b (removed Z b h xs) \<longleftrightarrow> q \<in> set xs"
  proof (cases "q \<in> set xs")
    case True
    with chain_list_set [OF c, of q] show ?thesis by (simp add: captured_def colr_removed)
  next
    case False
    then show ?thesis by (auto simp: captured_def colr_removed is_stone_def)
  qed
qed

lemma capture_loop_ok:
  assumes c: "is_stone c"
  shows "board_inv Z b \<Longrightarrow> \<forall>n \<in> set ns. on_grid n \<Longrightarrow> ci + length ns \<le> 4 \<Longrightarrow>
    \<exists>b' ci' sc'. capture_loop Z b c ns (ci, sc) = Some (Inr (b', ci', sc')) \<and>
      board_inv Z b' \<and> board_size b' = board_size b \<and> last_ko_point b' = last_ko_point b \<and>
      ci \<le> ci' \<and> ci' \<le> ci + length ns \<and>
      (\<forall>q. colr b' q = colr b q \<or> (on_grid q \<and> colr b q = opponent c \<and> colr b' q = EMPTY)) \<and>
      sc' = sc + int (card (captured b b')) \<and>
      (\<forall>i < ci. last_captures b' ! i = last_captures b ! i) \<and>
      (ci' = ci \<longrightarrow> captured b b' = {}) \<and>
      (ci < ci' \<longrightarrow> last_captures b' ! ci \<in> captured b b')"
proof (induction ns arbitrary: b ci sc)
  case Nil
  then show ?case by (simp add: captured_same)
next
  case (Cons n ns)
  note inv = Cons.prems(1)
  have gn: "on_grid n" and gns: "\<forall>n \<in> set ns. on_grid n" using Cons.prems(2) by simp_all
  have ci: "ci + length ns \<le> 4" "ci < 4" "Suc ci + length ns \<le> 4" using Cons.prems(3) by simp_all
  from inv have s: "struct_inv (colr b) b" and lc: "length (last_captures b) = 4"
    by (simp_all add: board_inv_def)
  have hg: "on_grid (head b n)" using struct_head_grid [OF s gn] .
  have oc: "is_stone (opponent c)" using c by (cases c) (simp_all add: is_stone_def)
  show ?case
  proof (cases "colr b n = opponent c \<and> num_pseudo_liberties (chains b (head b n)) = 0")
    case False
    from Cons.IH [OF inv gns ci(1), of sc] obtain b' ci' sc' where
      r: "capture_loop Z b c ns (ci, sc) = Some (Inr (b', ci', sc'))"
      and rest: "board_inv Z b'" "board_size b' = board_size b"
        "last_ko_point b' = last_ko_point b" "ci \<le> ci'" "ci' \<le> ci + length ns"
        "\<forall>q. colr b' q = colr b q \<or> (on_grid q \<and> colr b q = opponent c \<and> colr b' q = EMPTY)"
        "sc' = sc + int (card (captured b b'))"
        "\<forall>i < ci. last_captures b' ! i = last_captures b ! i"
        "ci' = ci \<longrightarrow> captured b b' = {}"
        "ci < ci' \<longrightarrow> last_captures b' ! ci \<in> captured b b'"
      by blast
    have "capture_loop Z b c (n # ns) (ci, sc) = Some (Inr (b', ci', sc'))"
      using False gn hg r by auto
    moreover have "ci' \<le> ci + length (n # ns)" using rest(5) by simp
    ultimately show ?thesis using rest by blast
  next
    case True
    then have cn: "colr b n = opponent c"
      and z: "num_pseudo_liberties (chains b (head b n)) = 0" by simp_all
    let ?h = "head b n"
    let ?b1 = "b\<lparr>last_captures := (last_captures b)[ci := ?h]\<rparr>"
    have inv1: "board_inv Z ?b1" using inv lc by (intro board_inv_last_captures) simp_all
    have st1: "is_stone (colr ?b1 n)" using cn oc by simp
    from remove_chain_ok [OF inv1 gn st1] obtain ys where
      cl1: "chain_list (colr ?b1) ?b1 (head ?b1 n) (n # ys)"
      and rc: "remove_chain Z ?b1 n = Some (Inr (removed Z ?b1 (head ?b1 n) (n # ys)))"
      and inv2: "board_inv Z (removed Z ?b1 (head ?b1 n) (n # ys))" by blast
    let ?b2 = "removed Z ?b1 ?h (n # ys)"
    have rc': "remove_chain Z ?b1 n = Some (Inr ?b2)" using rc by simp
    have inv2': "board_inv Z ?b2" using inv2 by simp
    have cl: "chain_list (colr ?b1) ?b1 ?h (n # ys)" using cl1 by simp
    have col2: "colr ?b2 q = (if q \<in> set (n # ys) then EMPTY else colr b q)" for q
      by (simp add: colr_removed)
    have mem: "on_grid q \<and> colr b q = opponent c" if "q \<in> set (n # ys)" for q
    proof -
      from chain_list_member [OF cl that] have "on_grid q" "colr b q = colr b ?h" by simp_all
      moreover from chain_list_member [OF cl, of n] have "colr b n = colr b ?h" by simp
      ultimately show ?thesis using cn by simp
    qed
    have step: "\<forall>q. colr ?b2 q = colr b q \<or> (is_stone (colr b q) \<and> colr ?b2 q = EMPTY)"
      using mem oc by (auto simp: col2)
    have cap2: "captured b ?b2 = set (n # ys)"
    proof -
      have "captured b ?b2 = captured ?b1 ?b2" by (simp add: captured_def)
      also have "\<dots> = set (n # ys)" using cl by (rule captured_removed)
      finally show ?thesis .
    qed
    have cnt: "num_stones (chains b ?h) = int (card (captured b ?b2))"
    proof -
      have "num_stones (chains ?b1 ?h) = int (length (n # ys))"
        using chain_list_count [OF cl] .
      moreover have "card (set (n # ys)) = length (n # ys)"
        using chain_list_distinct [OF cl] by (rule distinct_card)
      ultimately show ?thesis unfolding cap2 by simp
    qed
    have lc2: "last_captures ?b2 = (last_captures b)[ci := ?h]" by simp
    from Cons.IH [OF inv2' gns ci(3), of "sc + num_stones (chains b ?h)"]
    obtain b' ci' sc' where
      r: "capture_loop Z ?b2 c ns (Suc ci, sc + num_stones (chains b ?h))
            = Some (Inr (b', ci', sc'))"
      and rest: "board_inv Z b'" "board_size b' = board_size ?b2"
        "last_ko_point b' = last_ko_point ?b2" "Suc ci \<le> ci'" "ci' \<le> Suc ci + length ns"
        "\<forall>q. colr b' q = colr ?b2 q \<or>
             (on_grid q \<and> colr ?b2 q = opponent c \<and> colr b' q = EMPTY)"
        "sc' = sc + num_stones (chains b ?h) + int (card (captured ?b2 b'))"
        "\<forall>i < Suc ci. last_captures b' ! i = last_captures ?b2 ! i"
      by blast
    have run: "capture_loop Z b c (n # ns) (ci, sc) = Some (Inr (b', ci', sc'))"
      using gn hg cn z lc ci(2) rc' r by (simp add: Let_def)
    have step': "\<forall>q. colr b' q = colr ?b2 q \<or> (is_stone (colr ?b2 q) \<and> colr b' q = EMPTY)"
      using rest(6) oc by auto
    have colq: "\<forall>q. colr b' q = colr b q \<or>
        (on_grid q \<and> colr b q = opponent c \<and> colr b' q = EMPTY)"
    proof
      fix q
      from rest(6) have a: "colr b' q = colr ?b2 q \<or>
          (on_grid q \<and> colr ?b2 q = opponent c \<and> colr b' q = EMPTY)" ..
      show "colr b' q = colr b q \<or> (on_grid q \<and> colr b q = opponent c \<and> colr b' q = EMPTY)"
      proof (cases "q \<in> set (n # ys)")
        case True
        then have "colr ?b2 q = EMPTY" by (simp only: col2 if_True)
        with a oc have "colr b' q = EMPTY" by (auto simp: is_stone_def)
        with mem [OF True] show ?thesis by simp
      next
        case False
        then have "colr ?b2 q = colr b q" by (simp only: col2 if_False)
        with a show ?thesis by simp
      qed
    qed
    have card: "card (captured b b') = card (captured b ?b2) + card (captured ?b2 b')"
      using step step' by (rule card_captured_trans)
    have sc: "sc' = sc + int (card (captured b b'))"
      using rest(7) cnt card by simp
    have sub: "captured b ?b2 \<subseteq> captured b b'"
      using captured_trans(1) [OF step step'] by auto
    have l0: "last_captures b' ! ci = ?h"
    proof -
      from rest(8) have "last_captures b' ! ci = last_captures ?b2 ! ci" by simp
      then show ?thesis using lc ci(2) by simp
    qed
    have "?h \<in> set (n # ys)" using chain_list_head [OF cl] by simp
    then have inK: "last_captures b' ! ci \<in> captured b b'"
      using l0 cap2 sub by auto
    have keep: "\<forall>i < ci. last_captures b' ! i = last_captures b ! i"
    proof (intro allI impI)
      fix i assume i: "i < ci"
      with rest(8) have "last_captures b' ! i = last_captures ?b2 ! i" by simp
      with i show "last_captures b' ! i = last_captures b ! i" by simp
    qed
    have "board_size b' = board_size b" "last_ko_point b' = last_ko_point b"
      "ci \<le> ci'" "ci' \<le> ci + length (n # ns)" "ci' \<noteq> ci" "ci < ci'"
      using rest(2-5) by simp_all
    with run rest(1) colq sc keep inK show ?thesis by blast
  qed
qed

section \<open>The effect of a move\<close>

lemma enemy_eye_closed:
  "\<forall>n \<in> set ns. on_grid n \<Longrightarrow>
   enemy_eye b c ns = Inr (list_all (\<lambda>n. colr b n \<noteq> c \<and> colr b n \<noteq> EMPTY) ns)"
  by (induction ns) auto

lemma length_fold_reset: "length (fold (\<lambda>i xs. xs[i := v]) is xs) = length xs"
  by (induction "is" arbitrary: xs) simp_all

lemma nth_fold_reset: "j \<notin> set is \<Longrightarrow> fold (\<lambda>i xs. xs[i := v]) is xs ! j = xs ! j"
  by (induction "is" arbitrary: xs) simp_all

lemma finish_play_closed:
  assumes gp: "on_grid p" and hg: "on_grid (head b p)" and ne: "last_captures b \<noteq> []"
  shows "finish_play b p e sc
      = (if 0 < num_pseudo_liberties (chains b (head b p))
         then Inr (b\<lparr>last_ko_point := (if e \<and> sc = 1 then hd (last_captures b)
                                          else INVALID_POINT)\<rparr>)
         else Inl AssertionError)"
proof -
  obtain x xs where xs: "last_captures b = x # xs" using ne by (cases "last_captures b") auto
  show ?thesis
  proof (cases "e \<and> sc = 1")
    case True
    then show ?thesis using gp hg by (simp add: finish_play_def xs)
  next
    case False
    then show ?thesis using gp hg by (auto simp: finish_play_def xs)
  qed
qed

lemma taken_fields [simp]:
  "taken b (b'\<lparr>last_captures := l\<rparr>) c = taken b b' c"
  "taken b (b'\<lparr>last_ko_point := k\<rparr>) c = taken b b' c"
  by (simp_all add: taken_def)

lemma opponent_stone: "is_stone c \<Longrightarrow> is_stone (opponent c) \<and> opponent c \<noteq> c"
  by (cases c) (simp_all add: is_stone_def)

lemma play_effect:
  assumes inv: "board_inv Z b" and c: "is_stone c" and ia: "in_area (board_size b) p"
    and ep: "colr b p = EMPTY"
  shows "\<exists>b'. play Z b p c
               = Some (if 0 < num_pseudo_liberties (chains b' (head b' p)) then Inr b'
                       else Inl AssertionError) \<and>
           board_inv Z b' \<and> board_size b' = board_size b \<and> colr b' p = c \<and>
           (\<forall>q. q \<noteq> p \<longrightarrow> colr b' q = colr b q \<or>
                  (on_grid q \<and> colr b q = opponent c \<and> colr b' q = EMPTY)) \<and>
           (if in_eye b p c \<and> length (taken b b' c) = 1
            then taken b b' c = [last_ko_point b']
            else last_ko_point b' = INVALID_POINT)"
proof -
  from inv have ar: "area_inv (colr b) (board_size b)" by (simp add: board_inv_def)
  from area_neighbours [OF ar ia] have gp: "on_grid p"
    and gn: "\<forall>n \<in> set (neighbours p). on_grid n" by simp_all
  have pp: "p \<noteq> PASS"
    using ia ar by (auto simp: in_area_def area_inv_def PASS_def VIRTUAL_BOARD_SIZE_def)
  note oc = opponent_stone [OF c]
  have ee: "enemy_eye b c (neighbours p) = Inr (in_eye b p c)"
    unfolding in_eye_def using gn by (rule enemy_eye_closed)
  from place_stone_ok [OF inv ia ep c] obtain b3 where
    ps: "place_stone Z b p c = Some (Inr b3)" and inv3: "board_inv Z b3"
    and col3: "\<And>q. colr b3 q = ((colr b)(p := c)) q" and sz3: "board_size b3 = board_size b"
    by blast
  from ps obtain b1 where j: "join_chains_around b p c = Some (Inr b1)"
    and st: "bindE (set_stone Z b1 p c) (\<lambda>b2. remove_liberty_from_neighbouring_chains b2 p)
               = Inr b3"
    by (auto simp: place_stone_def split: option.splits sum.splits)
  have four: "0 + length (neighbours p) \<le> 4" by (simp add: neighbours_simps)
  from capture_loop_ok [OF c inv3 gn four, of 0] obtain b4 ci sc where
    cl: "capture_loop Z b3 c (neighbours p) (0, 0) = Some (Inr (b4, ci, sc))"
    and inv4: "board_inv Z b4" and sz4: "board_size b4 = board_size b3"
    and col4: "\<forall>q. colr b4 q = colr b3 q \<or>
                 (on_grid q \<and> colr b3 q = opponent c \<and> colr b4 q = EMPTY)"
    and sc: "sc = 0 + int (card (captured b3 b4))"
    and c0: "ci = 0 \<longrightarrow> captured b3 b4 = {}"
    and c1: "0 < ci \<longrightarrow> last_captures b4 ! 0 \<in> captured b3 b4"
    by blast
  let ?lc = "fold (\<lambda>i xs. xs[i := INVALID_POINT]) [ci..<length (last_captures b4)]
               (last_captures b4)"
  let ?b5 = "b4\<lparr>last_captures := ?lc\<rparr>"
  have l4: "length (last_captures b4) = 4" using inv4 by (simp add: board_inv_def)
  have l5: "length ?lc = 4" using l4 by (simp only: length_fold_reset)
  have cd: "capture_dead_chains Z b3 p c = Some (Inr (?b5, sc))"
    by (simp add: capture_dead_chains_def cl)
  have inv5: "board_inv Z ?b5" using inv4 l5 by (rule board_inv_last_captures)
  have col5: "colr ?b5 q = colr b4 q" for q by simp
  have cp: "colr b4 p = c"
  proof -
    from col4 have "colr b4 p = colr b3 p \<or>
        (on_grid p \<and> colr b3 p = opponent c \<and> colr b4 p = EMPTY)" ..
    with col3 [of p] oc show ?thesis by auto
  qed
  have colq: "colr b4 q = colr b q \<or> (on_grid q \<and> colr b q = opponent c \<and> colr b4 q = EMPTY)"
    if "q \<noteq> p" for q
  proof -
    from col4 have "colr b4 q = colr b3 q \<or>
        (on_grid q \<and> colr b3 q = opponent c \<and> colr b4 q = EMPTY)" ..
    with col3 [of q] that show ?thesis by auto
  qed
  have tk: "set (taken b b4 c) = captured b3 b4"
  proof (rule set_eqI)
    fix q
    show "q \<in> set (taken b b4 c) \<longleftrightarrow> q \<in> captured b3 b4"
    proof (cases "q = p")
      case True
      with cp ep c oc show ?thesis
        by (auto simp: taken_def captured_def set_grid is_stone_def)
    next
      case False
      from colq [OF False] col3 [of q] False oc show ?thesis
        by (auto simp: taken_def captured_def set_grid is_stone_def)
    qed
  qed
  have dt: "distinct (taken b b4 c)" by (simp add: taken_def distinct_grid)
  have lt: "int (length (taken b b4 c)) = sc"
    using sc tk distinct_card [OF dt] by simp
  let ?k = "if in_eye b p c \<and> sc = 1 then hd ?lc else INVALID_POINT"
  let ?b6 = "?b5\<lparr>last_ko_point := ?k\<rparr>"
  have ne: "?lc \<noteq> []" using l5 by auto
  have inv6: "board_inv Z ?b6" using inv5 by (rule board_inv_last_ko_point)
  have hg: "on_grid (head ?b6 p)"
    using struct_head_grid [of "colr ?b6" ?b6 p] inv6 gp by (simp add: board_inv_def)
  have hg5: "on_grid (head ?b5 p)" using hg by simp
  have fp: "finish_play ?b5 p (in_eye b p c) sc
      = (if 0 < num_pseudo_liberties (chains ?b6 (head ?b6 p)) then Inr ?b6
         else Inl AssertionError)"
    using finish_play_closed [OF gp hg5, of "in_eye b p c" sc] ne by simp
  have pl: "play Z b p c
      = Some (if 0 < num_pseudo_liberties (chains ?b6 (head ?b6 p)) then Inr ?b6
              else Inl AssertionError)"
    using pp gp ep ee j st cd fp by (simp add: play_def)
  have tk6: "taken b ?b6 c = taken b b4 c" by simp
  have ko: "if in_eye b p c \<and> length (taken b ?b6 c) = 1
            then taken b ?b6 c = [last_ko_point ?b6]
            else last_ko_point ?b6 = INVALID_POINT"
  proof (cases "in_eye b p c \<and> sc = 1")
    case True
    then have one: "length (taken b b4 c) = 1" using lt by simp
    then have "card (captured b3 b4) = 1" using tk distinct_card [OF dt] by simp
    then have "captured b3 b4 \<noteq> {}" by auto
    with c0 have "0 < ci" by auto
    with c1 have in0: "last_captures b4 ! 0 \<in> set (taken b b4 c)" using tk by simp
    have "0 \<notin> set [ci..<length (last_captures b4)]" using \<open>0 < ci\<close> by simp
    then have "?lc ! 0 = last_captures b4 ! 0" by (rule nth_fold_reset)
    moreover have "hd ?lc = ?lc ! 0" using ne by (simp add: hd_conv_nth)
    ultimately have "hd ?lc \<in> set (taken b b4 c)" using in0 by simp
    moreover from one obtain y where "taken b b4 c = [y]"
      by (cases "taken b b4 c") auto
    ultimately have "taken b b4 c = [hd ?lc]" by simp
    with True one lt show ?thesis by simp
  next
    case False
    then have "\<not> (in_eye b p c \<and> length (taken b b4 c) = 1)" using lt by auto
    with False show ?thesis by auto
  qed
  have "board_size ?b6 = board_size b" using sz4 sz3 by simp
  moreover have "colr ?b6 p = c" using cp by simp
  moreover have "\<forall>q. q \<noteq> p \<longrightarrow> colr ?b6 q = colr b q \<or>
      (on_grid q \<and> colr b q = opponent c \<and> colr ?b6 q = EMPTY)"
    using colq by simp
  ultimately show ?thesis using pl inv6 ko by blast
qed

section \<open>The invariant holds on every board\<close>

lemma zsum_zero: "\<forall>q \<in> set xs. f q = 0 \<Longrightarrow> zsum f xs = 0"
  by (induction xs) simp_all

lemma fresh_board_fields [simp]:
  "board_size (fresh_board sz) = sz"
  "last_ko_point (fresh_board sz) = INVALID_POINT"
  "colr (fresh_board sz) q = (if in_area sz q then EMPTY else GUARD)"
  "head (fresh_board sz) q = q"
  "nx (fresh_board sz) q = q"
  "last_captures (fresh_board sz) = replicate 4 INVALID_POINT"
  "zobrist_hash (fresh_board sz) = 0"
  by (simp_all add: fresh_board_def)

lemma board_inv_fresh:
  assumes sz: "sz \<le> 19"
  shows "board_inv Z (fresh_board sz)"
proof -
  let ?b = "fresh_board sz"
  have a: "area_inv (colr ?b) (board_size ?b)"
    using sz by (simp add: area_inv_def)
  have s: "struct_inv (colr ?b) ?b"
    by (rule struct_invI) (simp_all add: is_stone_def split: if_splits)
  have e: "emp_inv (colr ?b) (colr ?b) ?b"
    unfolding emp_inv_def
  proof (intro allI impI)
    fix q assume "on_grid q \<and> colr ?b q = EMPTY"
    then have ia: "in_area sz q" by (simp split: if_splits)
    have f: "filter (\<lambda>n. colr ?b n = EMPTY) (neighbours q) = filter (in_area sz) (neighbours q)"
      by (intro filter_cong) simp_all
    have "tracks (reset border_chain) {#}" by (simp add: tracks_def reset_def)
    from tracks_foldl [OF this, of "filter (in_area sz) (neighbours q)"]
    have "tracks (chains ?b q) (mset (filter (in_area sz) (neighbours q)))"
      using ia by (simp add: fresh_board_def)
    then show "tracks (chains ?b q) (mset (filter (\<lambda>n. colr ?b n = EMPTY) (neighbours q)))"
      by (simp only: f)
  qed
  have h: "zobrist_hash ?b = hash_of Z (colr ?b)"
  proof -
    have "zsum (zvalue Z (colr ?b)) grid = 0"
      by (rule zsum_zero) (simp add: zvalue_def is_stone_def)
    then show ?thesis by (simp add: hash_of_def)
  qed
  show ?thesis unfolding board_inv_def using a s e h by simp
qed

lemma init_liberties_error:
  "p \<in> set ps \<Longrightarrow> VIRTUAL_BOARD_POINTS \<le> p + VIRTUAL_BOARD_SIZE \<Longrightarrow>
   \<exists>e. init_liberties b ps = Inl e"
proof (induction ps arbitrary: b)
  case Nil
  then show ?case by simp
next
  case (Cons q ps)
  show ?case
  proof (cases "seed_liberties b q (neighbours q)")
    case (Inl e)
    then show ?thesis by (simp add: bindE_def)
  next
    case (Inr b')
    have "q \<noteq> p"
    proof
      assume "q = p"
      have "slot (p + VIRTUAL_BOARD_SIZE) = Inl IndexError"
        using Cons.prems(2) by (simp add: slot_def VIRTUAL_BOARD_POINTS_def)
      then have "seed_liberties b p (neighbours p) = Inl IndexError"
        by (simp add: neighbours_def is_empty_def point_color_def bindE_def)
      with Inr \<open>q = p\<close> show False by simp
    qed
    with Cons.prems have "p \<in> set ps" by simp
    from Cons.IH [OF this Cons.prems(2), of b'] Inr show ?thesis by (simp add: bindE_def)
  qed
qed

lemma GoBoard_init_large:
  assumes "19 < sz"
  shows "\<exists>e. GoBoard_init sz = Inl e"
proof -
  have "point_from_2d 19 0 \<in> set (board_points sz)"
    unfolding board_points_def set_concat set_map
  proof (rule UN_I)
    show "(\<lambda>row. map (\<lambda>col. point_from_2d row col) [0..sz - 1]) 19
        \<in> (\<lambda>row. map (\<lambda>col. point_from_2d row col) [0..sz - 1]) ` set [0..sz - 1]"
      using assms by (intro imageI) simp
    show "point_from_2d 19 0 \<in> set (map (\<lambda>col. point_from_2d 19 col) [0..sz - 1])"
      using assms by simp
  qed
  moreover have "VIRTUAL_BOARD_POINTS \<le> point_from_2d 19 0 + VIRTUAL_BOARD_SIZE"
    by (simp add: point_from_2d_def VIRTUAL_BOARD_POINTS_def VIRTUAL_BOARD_SIZE_def)
  ultimately have "\<exists>e. init_liberties b (board_points sz) = Inl e" for b
    by (rule init_liberties_error)
  then show ?thesis
    by (cases "init_colors (guard_board sz) (board_points sz)")
      (simp_all add: GoBoard_init_def bindE_def)
qed

lemma GoBoard_init_cases:
  assumes "GoBoard_init sz = Inr b"
  shows "sz \<le> 19 \<and> b = fresh_board sz"
proof (cases "sz \<le> 19")
  case True
  with GoBoard_init_fresh [OF True] assms show ?thesis by simp
next
  case False
  then have "19 < sz" by simp
  from GoBoard_init_large [OF this] assms show ?thesis by auto
qed

lemma play_pass: "play Z b PASS c = Some (Inr (b\<lparr>last_ko_point := INVALID_POINT\<rparr>))"
  by (simp add: play_def)

lemma move_point:
  assumes inv: "board_inv Z b" and m: "in_board_area b p" "is_empty b p = Inr True"
  shows "in_area (board_size b) p \<and> colr b p = EMPTY \<and> on_grid p \<and> p \<noteq> PASS"
proof -
  from inv have ar: "area_inv (colr b) (board_size b)" by (simp add: board_inv_def)
  then have sz: "board_size b \<le> 19" by (simp add: area_inv_def)
  have ia: "in_area (board_size b) p" using m(1) in_board_area_iff [OF sz] by simp
  have g: "on_grid p" using ia sz by (rule in_area_on_grid)
  have "colr b p = EMPTY" using m(2) g by simp
  moreover have "p \<noteq> PASS"
    using ia sz by (auto simp: in_area_def PASS_def VIRTUAL_BOARD_SIZE_def)
  ultimately show ?thesis using ia g by simp
qed

lemma play_board_inv:
  assumes inv: "board_inv Z b" and c: "is_stone c"
    and m: "p = PASS \<or> (in_board_area b p \<and> is_empty b p = Inr True)"
    and pl: "play Z b p c = Some (Inr b')"
  shows "board_inv Z b'"
proof (cases "p = PASS")
  case True
  with pl have "b' = b\<lparr>last_ko_point := INVALID_POINT\<rparr>" by (simp add: play_pass)
  with board_inv_last_ko_point [OF inv] show ?thesis by simp
next
  case False
  with m have "in_board_area b p" "is_empty b p = Inr True" by simp_all
  from move_point [OF inv this] have ia: "in_area (board_size b) p" and ep: "colr b p = EMPTY"
    by simp_all
  from play_effect [OF inv c ia ep] obtain b5 where
    r: "play Z b p c = Some (if 0 < num_pseudo_liberties (chains b5 (head b5 p)) then Inr b5
                             else Inl AssertionError)"
    and i5: "board_inv Z b5" by blast
  from r pl have "b' = b5" by (simp split: if_splits)
  with i5 show ?thesis by simp
qed

lemma reachable_board_inv: "reachable Z b \<Longrightarrow> board_inv Z b"
proof (induction rule: reachable.induct)
  case (constructed sz b)
  from GoBoard_init_cases [OF this] board_inv_fresh show ?case by simp
next
  case (played b c p b')
  from play_board_inv [OF played.IH played.hyps(2,3,4)] show ?case .
qed

lemma legal_move_point:
  assumes "is_legal_move b p c = Inr True"
  shows "p = PASS \<or> (in_board_area b p \<and> is_empty b p = Inr True)"
proof (cases "p = PASS")
  case True
  then show ?thesis by simp
next
  case False
  show ?thesis
  proof (cases "in_board_area b p")
    case nb: False
    with False assms show ?thesis by (simp add: is_legal_move_def)
  next
    case True
    show ?thesis
    proof (cases "is_empty b p")
      case (Inl e)
      with False True assms show ?thesis by (simp add: is_legal_move_def bindE_def)
    next
      case (Inr e)
      with False True assms have e by (cases e) (simp_all add: is_legal_move_def bindE_def)
      with Inr True show ?thesis by simp
    qed
  qed
qed

lemma legal_reachable_reachable: "legal_reachable Z b \<Longrightarrow> reachable Z b"
proof (induction rule: legal_reachable.induct)
  case (legal_constructed sz b)
  then show ?case by (rule reachable.constructed)
next
  case (legal_played b c p b')
  from legal_played.IH legal_played.hyps(2) legal_move_point [OF legal_played.hyps(3)]
    legal_played.hyps(4)
  show ?case by (rule reachable.played)
qed

section \<open>Example boards\<close>

lemma returned_the_board: "returned r \<Longrightarrow> r = Some (Inr (the_board r))"
  by (auto simp: returned_def the_board_def split: option.splits sum.splits)

lemma fresh_legal_reachable: "sz \<le> 19 \<Longrightarrow> legal_reachable Z (fresh_board sz)"
  using GoBoard_init_fresh [of sz] by (auto intro: legal_reachable.legal_constructed)

lemma play_board1: "play example_table (fresh_board 9) 22 BLACK = Some (Inr board1)"
proof -
  have "returned (play example_table (fresh_board 9) 22 BLACK)" by code_simp
  then show ?thesis unfolding board1_def by (rule returned_the_board)
qed

lemma board1_legal_reachable: "legal_reachable example_table board1"
proof -
  have f: "legal_reachable example_table (fresh_board 9)"
    by (rule fresh_legal_reachable) simp
  have s: "is_stone BLACK" by (simp add: is_stone_def)
  have l: "is_legal_move (fresh_board 9) 22 BLACK = Inr True" by code_simp
  from f s l play_board1 show ?thesis by (rule legal_reachable.legal_played)
qed

lemma board1_facts:
  "board_size board1 = 9" "colr board1 22 = BLACK"
  "q \<noteq> 22 \<Longrightarrow> colr board1 q = (if in_area 9 q then EMPTY else GUARD)"
  "last_ko_point board1 = INVALID_POINT"
proof -
  have inv: "board_inv example_table (fresh_board 9)" by (rule board_inv_fresh) simp
  have ia: "in_area (board_size (fresh_board 9)) 22"
    by (simp add: in_area_def VIRTUAL_BOARD_SIZE_def)
  have ep: "colr (fresh_board 9) 22 = EMPTY" using ia by simp
  have s: "is_stone BLACK" by (simp add: is_stone_def)
  from play_effect [OF inv s ia ep] obtain b' where
    r: "play example_table (fresh_board 9) 22 BLACK
          = Some (if 0 < num_pseudo_liberties (chains b' (head b' 22)) then Inr b'
                  else Inl AssertionError)"
    and sz: "board_size b' = board_size (fresh_board 9)" and cp: "colr b' 22 = BLACK"
    and cq: "\<forall>q. q \<noteq> 22 \<longrightarrow> colr b' q = colr (fresh_board 9) q \<or>
                  (on_grid q \<and> colr (fresh_board 9) q = opponent BLACK \<and> colr b' q = EMPTY)"
    and ko: "if in_eye (fresh_board 9) 22 BLACK \<and> length (taken (fresh_board 9) b' BLACK) = 1
            then taken (fresh_board 9) b' BLACK = [last_ko_point b']
            else last_ko_point b' = INVALID_POINT"
    by blast
  from r play_board1 have b: "b' = board1" by (simp split: if_splits)
  show "board_size board1 = 9" using sz b by simp
  show "colr board1 22 = BLACK" using cp b by simp
  show "colr board1 q = (if in_area 9 q then EMPTY else GUARD)" if "q \<noteq> 22"
  proof -
    from cq have "q \<noteq> 22 \<longrightarrow> colr b' q = colr (fresh_board 9) q \<or>
      (on_grid q \<and> colr (fresh_board 9) q = opponent BLACK \<and> colr b' q = EMPTY)" ..
    with that b show ?thesis by (auto split: if_splits)
  qed
  have "\<not> in_eye (fresh_board 9) 22 BLACK"
    by (simp add: in_eye_def neighbours_simps in_area_def VIRTUAL_BOARD_SIZE_def)
  with ko b show "last_ko_point board1 = INVALID_POINT" by simp
qed

lemma board1_reachable: "reachable example_table board1"
  using board1_legal_reachable by (rule legal_reachable_reachable)

section \<open>Empty points\<close>

lemma emp_inv_count:
  assumes "board_inv Z b" "on_grid p" "colr b p = EMPTY"
  shows "num_pseudo_liberties (chains b p)
           = int (length (filter (\<lambda>n. colr b n = EMPTY) (neighbours p)))"
proof -
  from assms have "tracks (chains b p) (mset (filter (\<lambda>n. colr b n = EMPTY) (neighbours p)))"
    by (simp add: board_inv_def emp_inv_def)
  then have "num_pseudo_liberties (chains b p)
      = int (size (mset (filter (\<lambda>n. colr b n = EMPTY) (neighbours p))))"
    unfolding tracks_def by blast
  then show ?thesis by (simp only: size_mset)
qed

lemma empty_point_slot:
  assumes inv: "board_inv Z b" and g: "on_grid p" and e: "colr b p = EMPTY"
  shows "head b p = p \<and> nx b p = p"
proof -
  have "\<not> is_stone (colr b p)" using e by (simp add: is_stone_def)
  with inv g show ?thesis using struct_other [of "colr b" b p] by (simp add: board_inv_def)
qed

text \<open>
  Claim C10. On a board reached by legal moves, an empty point \<open>p\<close> of the board
  area is its own chain head and its own successor, and the chain slot of \<open>p\<close>
  counts the empty neighbours of \<open>p\<close>: so its count is positive exactly when
  \<open>p\<close> has an empty neighbour.
\<close>

theorem empty_point_own_chain:
  assumes "legal_reachable Z b" and "in_board_area b p" and "is_empty b p = Inr True"
  shows "chain_head_of b p = Inr p \<and> nx b p = p \<and>
         (\<exists>ch. chain_of b p = Inr ch \<and>
            num_pseudo_liberties ch
              = int (length (filter (\<lambda>n. colr b n = EMPTY) (neighbours p))) \<and>
            (0 < num_pseudo_liberties ch \<longleftrightarrow> (\<exists>n \<in> set (neighbours p). colr b n = EMPTY)))"
proof -
  have inv: "board_inv Z b"
    using assms(1) by (intro reachable_board_inv legal_reachable_reachable)
  from move_point [OF inv assms(2,3)] have g: "on_grid p" and e: "colr b p = EMPTY" by simp_all
  from empty_point_slot [OF inv g e] have h: "head b p = p" and n: "nx b p = p" by simp_all
  have c: "chain_of b p = Inr (chains b p)" using g h by simp
  have k: "num_pseudo_liberties (chains b p)
      = int (length (filter (\<lambda>n. colr b n = EMPTY) (neighbours p)))"
    using inv g e by (rule emp_inv_count)
  have "0 < num_pseudo_liberties (chains b p) \<longleftrightarrow> (\<exists>n \<in> set (neighbours p). colr b n = EMPTY)"
    unfolding k by (simp add: filter_empty_conv)
  with c k h n g show ?thesis by simp
qed

theorem empty_point_own_chain_witness:
  "legal_reachable example_table board1 \<and> in_board_area board1 23 \<and>
   is_empty board1 23 = Inr True \<and> chain_head_of board1 23 = Inr 23 \<and>
   (\<exists>ch. chain_of board1 23 = Inr ch \<and>
      num_pseudo_liberties ch
        = int (length (filter (\<lambda>n. colr board1 n = EMPTY) (neighbours 23))))"
proof -
  have a: "in_board_area board1 23"
    by (simp add: in_board_area_def board1_facts point_to_2d_def INVALID_POINT_def PASS_def
        VIRTUAL_BOARD_SIZE_def)
  have g: "on_grid 23" by (simp add: on_grid_def VIRTUAL_BOARD_POINTS_def VIRTUAL_BOARD_SIZE_def)
  have e: "is_empty board1 23 = Inr True"
    using g by (simp add: board1_facts in_area_def VIRTUAL_BOARD_SIZE_def)
  from empty_point_own_chain [OF board1_legal_reachable a e] board1_legal_reachable a e
  show ?thesis by blast
qed

section \<open>Chains of stones\<close>




section \<open>The hash\<close>



section \<open>Legal moves\<close>

lemma connects_to_living_closed:
  "\<forall>n \<in> set ns. on_grid n \<and> on_grid (head b n) \<Longrightarrow>
   connects_to_living b c ns
     = Inr (\<exists>n \<in> set ns. colr b n = c \<and> \<not> in_atari (chains b (head b n)))"
  by (induction ns) auto

lemma captures_some_closed:
  "\<forall>n \<in> set ns. on_grid n \<and> on_grid (head b n) \<Longrightarrow>
   captures_some b c ns
     = Inr (\<exists>n \<in> set ns. colr b n = opponent c \<and> in_atari (chains b (head b n)))"
  by (induction ns) auto

text \<open>
  Claim C1. On a board that a program can hold, \<^verbatim>\<open>is_legal_move\<close> raises
  nothing, and for a black or white stone it returns true exactly for a pass and for a
  point of the board area that is empty, is not the ko point, and has an empty
  neighbour, or a neighbour of the same color whose chain is not in atari, or a
  neighbour of the other color whose chain is in atari.
\<close>

theorem is_legal_move_iff:
  assumes "reachable Z b" and "is_stone c"
  shows "is_legal_move b p c =
     Inr (p = PASS \<or>
          (in_board_area b p \<and> colr b p = EMPTY \<and> p \<noteq> last_ko_point b \<and>
           ((\<exists>n \<in> set (neighbours p). colr b n = EMPTY) \<or>
            (\<exists>n \<in> set (neighbours p). colr b n = c \<and> \<not> in_atari (chains b (head b n))) \<or>
            (\<exists>n \<in> set (neighbours p).
               colr b n = opponent c \<and> in_atari (chains b (head b n))))))"
proof (cases "p = PASS \<or> \<not> in_board_area b p")
  case True
  then show ?thesis by (auto simp: is_legal_move_def)
next
  case False
  then have pp: "p \<noteq> PASS" and ib: "in_board_area b p" by simp_all
  have inv: "board_inv Z b" using assms(1) by (rule reachable_board_inv)
  then have ar: "area_inv (colr b) (board_size b)" and s: "struct_inv (colr b) b"
    by (simp_all add: board_inv_def)
  have sz: "board_size b \<le> 19" using ar by (simp add: area_inv_def)
  have ia: "in_area (board_size b) p" using ib in_board_area_iff [OF sz] by simp
  from area_neighbours [OF ar ia] have g: "on_grid p"
    and gn: "\<forall>n \<in> set (neighbours p). on_grid n" by simp_all
  have gh: "\<forall>n \<in> set (neighbours p). on_grid n \<and> on_grid (head b n)"
    using gn struct_head_grid [OF s] by blast
  show ?thesis
  proof (cases "colr b p = EMPTY \<and> p \<noteq> last_ko_point b")
    case no: False
    then show ?thesis using pp ib g by (auto simp: is_legal_move_def)
  next
    case True
    then have e: "colr b p = EMPTY" and k: "p \<noteq> last_ko_point b" by simp_all
    from empty_point_slot [OF inv g e] have h: "head b p = p" by simp
    have c: "chain_of b p = Inr (chains b p)" using g h by simp
    have n: "0 < num_pseudo_liberties (chains b p)
        \<longleftrightarrow> (\<exists>n \<in> set (neighbours p). colr b n = EMPTY)"
      unfolding emp_inv_count [OF inv g e] by (simp add: filter_empty_conv)
    show ?thesis
    proof (cases "\<exists>n \<in> set (neighbours p). colr b n = EMPTY")
      case some: True
      with n have "0 < num_pseudo_liberties (chains b p)" by simp
      then have "is_legal_move b p c = Inr True"
        using pp ib g e k c by (simp add: is_legal_move_def)
      with some pp ib e k show ?thesis by simp
    next
      case none: False
      with n have "\<not> 0 < num_pseudo_liberties (chains b p)" by simp
      then have "is_legal_move b p c =
          bindE (connects_to_living b c (neighbours p)) (\<lambda>r.
            if r then Inr True else captures_some b c (neighbours p))"
        using pp ib g e k c by (simp add: is_legal_move_def)
      also have "\<dots> = Inr ((\<exists>n \<in> set (neighbours p).
                 colr b n = c \<and> \<not> in_atari (chains b (head b n))) \<or>
            (\<exists>n \<in> set (neighbours p).
               colr b n = opponent c \<and> in_atari (chains b (head b n))))"
        by (auto simp: connects_to_living_closed [OF gh] captures_some_closed [OF gh])
      finally show ?thesis using none pp ib e k by simp
    qed
  qed
qed

theorem is_legal_move_iff_witness:
  "reachable example_table board1 \<and> is_stone WHITE \<and>
   is_legal_move board1 23 WHITE = Inr True \<and> is_legal_move board1 22 WHITE = Inr False"
proof -
  have s: "is_stone WHITE" by (simp add: is_stone_def)
  have a: "in_board_area board1 23"
    by (simp add: in_board_area_def board1_facts point_to_2d_def INVALID_POINT_def PASS_def
        VIRTUAL_BOARD_SIZE_def)
  have e: "colr board1 23 = EMPTY" "colr board1 24 = EMPTY"
    by (simp_all add: board1_facts in_area_def VIRTUAL_BOARD_SIZE_def)
  have n: "24 \<in> set (neighbours 23)" by (simp add: neighbours_simps)
  have k: "23 \<noteq> last_ko_point board1" by (simp add: board1_facts INVALID_POINT_def)
  have "is_legal_move board1 23 WHITE = Inr True"
    using is_legal_move_iff [OF board1_reachable s, of 23] a e n k by auto
  moreover have "is_legal_move board1 22 WHITE = Inr False"
    using is_legal_move_iff [OF board1_reachable s, of 22]
    by (simp add: board1_facts PASS_def VIRTUAL_BOARD_SIZE_def)
  ultimately show ?thesis using board1_reachable s by simp
qed

end
